theory Spec2Isabelle
  imports Complex_Main
begin

section \<open>PrintFlow: the job queue, the dispatcher and the printer workers\<close>

text \<open>
  A shallow embedding of the core of \<^verbatim>\<open>PrintFlow.py\<close>: the class \<^verbatim>\<open>PrintJob\<close>,
  the worker \<^verbatim>\<open>Printer\<close> and the dispatcher \<^verbatim>\<open>JobManager\<close>.

  Python objects are mutable and shared by reference: the same \<^verbatim>\<open>PrintJob\<close> is reachable
  from the queue, from a printer's \<^verbatim>\<open>current_job\<close> and from a printer's
  \<^verbatim>\<open>preempt_with_job\<close>. The model therefore keeps two stores, one of jobs and one of
  printers, indexed by object identity (a natural number), and every container of the
  program holds identities. \<^verbatim>\<open>deque.remove\<close> compares by identity, since \<^verbatim>\<open>PrintJob\<close>
  defines no \<^verbatim>\<open>__eq__\<close>.
\<close>

subsection \<open>Data\<close>

type_synonym ref = nat

datatype status = Queued | Printing | Paused | Completed | Canceled | Queued_Preempted

datatype algorithm = FCFS | SJF | SRTF

datatype py_error = ZeroDivisionError | OverflowError | AttributeError

record PrintJob =
  job_id :: string
  file_name :: string
  file_path :: string
  pages :: int
  status :: status
  progress :: int
  pages_remaining :: int

record Printer =
  printer_id :: int
  printer_name :: string
  current_job :: "ref option"
  is_running :: bool
  is_paused :: bool
  shutdown_flag :: bool
  preempt_with_job :: "ref option"
  cancel_current_job :: bool

text \<open>
  What a printer reports as its status: the status of its job, or one of the three words
  \<^verbatim>\<open>"Idle"\<close>, \<^verbatim>\<open>"Paused"\<close> (paused with no job) and \<^verbatim>\<open>"Offline"\<close>.
\<close>

datatype printer_status = Job_status status | Idle | Paused_no_job | Offline

record printer_info =
  info_id :: int
  info_name :: string
  info_job :: "PrintJob option"
  info_status :: printer_status

text \<open>
  The text of every log line, with the interpolated values as arguments. The time stamp
  that \<^verbatim>\<open>log\<close> prepends is not modelled.
\<close>

datatype message =
    Msg_started string
  | Msg_canceled string
  | Msg_preempted_by string
  | Msg_finished string
  | Msg_resumed
  | Msg_paused
  | Msg_online string int
  | Msg_switched algorithm
  | Msg_requeued string
  | Msg_added string int
  | Msg_srtf_preemption string int
  | Msg_srtf_info string
  | Msg_removed string
  | Msg_signaling string string
  | Msg_not_found string
  | Msg_get_next_error

datatype origin = Manager | Device string

datatype update =
    Log origin message
  | Algorithm_changed algorithm
  | Update_queue "PrintJob list"
  | Printer_status printer_info

text \<open>
  The whole program state: the two object stores, the fields of the one \<^verbatim>\<open>JobManager\<close>
  (\<^verbatim>\<open>job_queue\<close>, \<^verbatim>\<open>printers\<close>, \<^verbatim>\<open>algorithm\<close>) and the one \<^verbatim>\<open>update_queue\<close> that the
  manager and all printers share. The dictionary \<^verbatim>\<open>printers\<close> keeps insertion order, so
  it is an association list from printer id to printer object.
\<close>

record system =
  jobs :: "ref \<Rightarrow> PrintJob"
  devices :: "ref \<Rightarrow> Printer"
  job_queue :: "ref list"
  printers :: "(int \<times> ref) list"
  algorithm :: algorithm
  update_queue :: "update list"

definition PrintJob_init :: "string \<Rightarrow> string \<Rightarrow> string \<Rightarrow> int \<Rightarrow> PrintJob" where
  \<comment> \<open>The first argument stands for the eight characters of the fresh UUID.\<close>
  "PrintJob_init uid fname fpath n =
     \<lparr>job_id = uid, file_name = fname, file_path = fpath, pages = n,
      status = Queued, progress = 0, pages_remaining = n\<rparr>"

definition get_snapshot :: "PrintJob \<Rightarrow> PrintJob" where
  \<comment> \<open>\<^verbatim>\<open>copy.copy\<close>: a new object with the same field values.\<close>
  "get_snapshot j = j"

definition Printer_init :: "int \<Rightarrow> string \<Rightarrow> Printer" where
  "Printer_init pid pname =
     \<lparr>printer_id = pid, printer_name = pname, current_job = None, is_running = True,
      is_paused = False, shutdown_flag = False, preempt_with_job = None,
      cancel_current_job = False\<rparr>"

subsection \<open>True division of Python integers\<close>

text \<open>
  \<^verbatim>\<open>sum(...) / queue_length\<close> divides two unbounded integers and returns a double: the
  representable number nearest to the exact quotient, ties going to the even significand;
  \<^verbatim>\<open>ZeroDivisionError\<close> for a zero divisor and \<^verbatim>\<open>OverflowError\<close> when the rounded
  quotient is beyond the largest double. The double is represented by its exact rational
  value, which is what the comparison \<^verbatim>\<open>avg_pages <= 20\<close> against an integer reads.
\<close>

fun bit_length :: "nat \<Rightarrow> nat" where
  "bit_length n = (if n = 0 then 0 else Suc (bit_length (n div 2)))"

declare bit_length.simps [simp del]

definition pow2 :: "int \<Rightarrow> rat" where
  "pow2 k = (if 0 \<le> k then 2 ^ nat k else 1 / 2 ^ nat (- k))"

definition scaled :: "int \<Rightarrow> int \<Rightarrow> int \<Rightarrow> int \<times> int" where
  \<comment> \<open>Numerator and denominator of \<open>n / d * 2 ^ k\<close>.\<close>
  "scaled n d k = (if 0 \<le> k then (n * 2 ^ nat k, d) else (n, d * 2 ^ nat (- k)))"

definition round_half_even :: "int \<Rightarrow> int \<Rightarrow> int" where
  \<comment> \<open>The integer nearest to \<open>n / d\<close> for \<open>0 < d\<close>, a tie going to the even one.\<close>
  "round_half_even n d =
     (let q = n div d; r = n mod d
      in if 2 * r < d then q else if d < 2 * r then q + 1
         else if even q then q else q + 1)"

definition exponent :: "int \<Rightarrow> int \<Rightarrow> int" where
  \<comment> \<open>For \<open>0 < n\<close> and \<open>0 < d\<close>: the \<open>e\<close> with \<open>2 ^ e \<le> n / d < 2 ^ (e + 1)\<close>.\<close>
  "exponent n d =
     (let g = int (bit_length (nat n)) - int (bit_length (nat d))
      in case scaled n d (- g) of (n', d') \<Rightarrow> if d' \<le> n' then g else g - 1)"

definition nearest_double :: "int \<Rightarrow> int \<Rightarrow> py_error + rat" where
  \<comment> \<open>For \<open>0 \<le> n\<close> and \<open>0 < d\<close>: 53 significant bits, exponents from -1022 to 1023.\<close>
  "nearest_double n d =
     (if n = 0 then Inr 0
      else let e = max (exponent n d) (- 1022);
               m = (case scaled n d (52 - e) of (n', d') \<Rightarrow> round_half_even n' d');
               v = of_int m * pow2 (e - 52)
           in if pow2 1024 \<le> v then Inl OverflowError else Inr v)"

definition py_truediv :: "int \<Rightarrow> int \<Rightarrow> py_error + rat" where
  "py_truediv a b =
     (if b = 0 then Inl ZeroDivisionError
      else case nearest_double \<bar>a\<bar> \<bar>b\<bar> of
             Inl e \<Rightarrow> Inl e
           | Inr v \<Rightarrow> Inr (if (a < 0) \<noteq> (b < 0) then - v else v))"

subsection \<open>JobManager\<close>

definition send_update :: "update \<Rightarrow> system \<Rightarrow> system" where
  "send_update u s = s\<lparr>update_queue := update_queue s @ [u]\<rparr>"

definition manager_log :: "message \<Rightarrow> system \<Rightarrow> system" where
  "manager_log m s = send_update (Log Manager m) s"

definition send_full_update :: "system \<Rightarrow> system" where
  "send_full_update s =
     send_update (Update_queue (map (\<lambda>job. get_snapshot (jobs s job)) (job_queue s))) s"

definition add_printer :: "ref \<Rightarrow> system \<Rightarrow> system" where
  \<comment> \<open>\<^verbatim>\<open>self.printers[id] = instance\<close>: a key already present keeps its place.\<close>
  "add_printer p s =
     (let pid = printer_id (devices s p);
          s1 = s\<lparr>printers := (if pid \<in> fst ` set (printers s)
                                then map (\<lambda>(k, v). if k = pid then (k, p) else (k, v)) (printers s)
                                else printers s @ [(pid, p)])\<rparr>
      in manager_log (Msg_online (printer_name (devices s p)) pid) s1)"

definition new_algo :: "system \<Rightarrow> py_error + algorithm" where
  \<comment> \<open>The first half of \<^verbatim>\<open>auto_select_algorithm\<close>: the value given to \<^verbatim>\<open>new_algo\<close>.
     \<^verbatim>\<open>except ZeroDivisionError\<close> catches that one exception only.\<close>
  "new_algo s =
     (let queue_length = length (job_queue s)
      in if queue_length = 0 then Inr FCFS
         else if queue_length \<le> 3 then Inr FCFS
         else case py_truediv (sum_list (map (\<lambda>j. pages_remaining (jobs s j)) (job_queue s)))
                              (int queue_length) of
                Inl ZeroDivisionError \<Rightarrow> Inr FCFS
              | Inl e \<Rightarrow> Inl e
              | Inr avg_pages \<Rightarrow> if avg_pages \<le> 20 then Inr SRTF else Inr SJF)"

definition auto_select_algorithm :: "system \<Rightarrow> (py_error + unit) \<times> system" where
  "auto_select_algorithm s =
     (case new_algo s of
        Inl e \<Rightarrow> (Inl e, s)
      | Inr a \<Rightarrow>
          (Inr (),
           if algorithm s \<noteq> a
           then send_update (Algorithm_changed a) (manager_log (Msg_switched a) (s\<lparr>algorithm := a\<rparr>))
           else s))"

definition preempt :: "ref \<Rightarrow> ref \<Rightarrow> system \<Rightarrow> system" where
  \<comment> \<open>\<^verbatim>\<open>Printer.preempt\<close>\<close>
  "preempt p new_job s =
     s\<lparr>devices := (devices s)(p := (devices s p)\<lparr>preempt_with_job := Some new_job\<rparr>)\<rparr>"

definition set_cancel_flag :: "ref \<Rightarrow> system \<Rightarrow> system" where
  \<comment> \<open>\<^verbatim>\<open>Printer.set_cancel_flag\<close>\<close>
  "set_cancel_flag p s =
     s\<lparr>devices := (devices s)(p := (devices s p)\<lparr>cancel_current_job := True\<rparr>)\<rparr>"

fun scan_printers :: "system \<Rightarrow> ref list \<Rightarrow> ref option \<times> int \<Rightarrow> ref option \<times> int" where
  \<comment> \<open>The \<^verbatim>\<open>for\<close> loop of \<^verbatim>\<open>check_for_preemption\<close> over \<^verbatim>\<open>self.printers.values()\<close>; the pair is
     \<^verbatim>\<open>(best_target_printer, max_remaining_time)\<close>.\<close>
  "scan_printers s [] acc = acc"
| "scan_printers s (printer # rest) (best_target_printer, max_remaining_time) =
     (case current_job (devices s printer) of
        Some job \<Rightarrow>
          if \<not> is_paused (devices s printer)
          then let remaining_time = pages_remaining (jobs s job)
               in if remaining_time > max_remaining_time
                  then scan_printers s rest (Some printer, remaining_time)
                  else scan_printers s rest (best_target_printer, max_remaining_time)
          else scan_printers s rest (best_target_printer, max_remaining_time)
      | None \<Rightarrow> scan_printers s rest (best_target_printer, max_remaining_time))"

definition check_for_preemption :: "ref \<Rightarrow> system \<Rightarrow> system" where
  \<comment> \<open>\<^verbatim>\<open>deque.remove\<close> raises \<^verbatim>\<open>ValueError\<close> when the job is absent; the handler logs it
     and \<^verbatim>\<open>preempt\<close> is not reached.\<close>
  "check_for_preemption new_job s =
     (case fst (scan_printers s (map snd (printers s))
                  (None, pages_remaining (jobs s new_job))) of
        None \<Rightarrow> s
      | Some best_target_printer \<Rightarrow>
          let s1 = manager_log (Msg_srtf_preemption (job_id (jobs s new_job))
                                  (pages_remaining (jobs s new_job))) s
          in if new_job \<in> set (job_queue s1)
             then preempt best_target_printer new_job
                    (s1\<lparr>job_queue := remove1 new_job (job_queue s1)\<rparr>)
             else manager_log (Msg_srtf_info (job_id (jobs s new_job))) s1)"

definition add_job_to_queue :: "ref \<Rightarrow> bool \<Rightarrow> system \<Rightarrow> (py_error + unit) \<times> system" where
  "add_job_to_queue job preempted s =
     (let s1 = (if preempted
                then manager_log (Msg_requeued (file_name (jobs s job)))
                       (s\<lparr>job_queue := job # job_queue s\<rparr>)
                else manager_log (Msg_added (file_name (jobs s job)) (pages (jobs s job)))
                       (s\<lparr>job_queue := job_queue s @ [job]\<rparr>));
          s2 = (if algorithm s1 = SRTF \<and> \<not> preempted then check_for_preemption job s1 else s1)
      in case auto_select_algorithm s2 of
           (Inl e, s3) \<Rightarrow> (Inl e, s3)
         | (Inr _, s3) \<Rightarrow> (Inr (), send_full_update s3))"

definition get_next_job :: "int \<Rightarrow> system \<Rightarrow> (py_error + ref option) \<times> system" where
  \<comment> \<open>\<^verbatim>\<open>sorted\<close> is stable, as \<open>sort_key\<close> is. \<^verbatim>\<open>auto_select_algorithm\<close> runs outside the
     \<^verbatim>\<open>try\<close>; inside it only \<^verbatim>\<open>sorted_jobs[0]\<close> on an empty list could raise, which the
     handler logs before returning \<^verbatim>\<open>None\<close>.\<close>
  "get_next_job pid s =
     (case auto_select_algorithm s of
        (Inl e, s1) \<Rightarrow> (Inl e, s1)
      | (Inr _, s1) \<Rightarrow>
          (case job_queue s1 of
             [] \<Rightarrow> (Inr None, s1)
           | first # rest \<Rightarrow>
               (case algorithm s1 of
                  FCFS \<Rightarrow> (Inr (Some first), send_full_update (s1\<lparr>job_queue := rest\<rparr>))
                | _ \<Rightarrow>
                    (case sort_key (\<lambda>j. pages_remaining (jobs s1 j)) (job_queue s1) of
                       [] \<Rightarrow> (Inr None, manager_log Msg_get_next_error s1)
                     | next_job # _ \<Rightarrow>
                         (Inr (Some next_job),
                          send_full_update (s1\<lparr>job_queue := remove1 next_job (job_queue s1)\<rparr>))))))"

definition holds_job :: "system \<Rightarrow> string \<Rightarrow> ref \<Rightarrow> bool" where
  \<comment> \<open>\<^verbatim>\<open>printer.current_job and printer.current_job.job_id == job_id\<close>\<close>
  "holds_job s jid p =
     (case current_job (devices s p) of Some j \<Rightarrow> job_id (jobs s j) = jid | None \<Rightarrow> False)"

definition cancel_job :: "string \<Rightarrow> system \<Rightarrow> system" where
  "cancel_job jid s =
     (case find (\<lambda>j. job_id (jobs s j) = jid) (job_queue s) of
        Some job_to_cancel \<Rightarrow>
          send_full_update
            (manager_log (Msg_removed (file_name (jobs s job_to_cancel)))
               (s\<lparr>job_queue := remove1 job_to_cancel (job_queue s)\<rparr>))
      | None \<Rightarrow>
          (case find (holds_job s jid) (map snd (printers s)) of
             Some printer \<Rightarrow>
               (case current_job (devices s printer) of
                  Some j \<Rightarrow>
                    set_cancel_flag printer
                      (manager_log (Msg_signaling (printer_name (devices s printer))
                                      (file_name (jobs s j))) s)
                | None \<Rightarrow> s)
           | None \<Rightarrow> manager_log (Msg_not_found jid) s))"

subsection \<open>Printer\<close>

definition set_status :: "ref \<Rightarrow> status \<Rightarrow> system \<Rightarrow> system" where
  \<comment> \<open>\<^verbatim>\<open>job.status = ...\<close> on the job object \<open>j\<close>\<close>
  "set_status j st s = s\<lparr>jobs := (jobs s)(j := (jobs s j)\<lparr>status := st\<rparr>)\<rparr>"

definition set_current_job :: "ref \<Rightarrow> ref option \<Rightarrow> system \<Rightarrow> system" where
  \<comment> \<open>\<^verbatim>\<open>self.current_job = ...\<close> on the printer object \<open>p\<close>\<close>
  "set_current_job p c s = s\<lparr>devices := (devices s)(p := (devices s p)\<lparr>current_job := c\<rparr>)\<rparr>"

definition set_cancel_current_job :: "ref \<Rightarrow> bool \<Rightarrow> system \<Rightarrow> system" where
  "set_cancel_current_job p b s =
     s\<lparr>devices := (devices s)(p := (devices s p)\<lparr>cancel_current_job := b\<rparr>)\<rparr>"

definition set_preempt_with_job :: "ref \<Rightarrow> ref option \<Rightarrow> system \<Rightarrow> system" where
  "set_preempt_with_job p c s =
     s\<lparr>devices := (devices s)(p := (devices s p)\<lparr>preempt_with_job := c\<rparr>)\<rparr>"

definition set_is_paused :: "ref \<Rightarrow> bool \<Rightarrow> system \<Rightarrow> system" where
  "set_is_paused p b s = s\<lparr>devices := (devices s)(p := (devices s p)\<lparr>is_paused := b\<rparr>)\<rparr>"

definition printer_send_update :: "ref \<Rightarrow> update \<Rightarrow> system \<Rightarrow> system" where
  "printer_send_update p u s = (if is_running (devices s p) then send_update u s else s)"

definition printer_log :: "ref \<Rightarrow> message \<Rightarrow> system \<Rightarrow> system" where
  "printer_log p m s = printer_send_update p (Log (Device (printer_name (devices s p))) m) s"

definition send_status_update :: "ref \<Rightarrow> system \<Rightarrow> system" where
  "send_status_update p s =
     (let self = devices s p;
          job_snapshot = map_option (\<lambda>j. get_snapshot (jobs s j)) (current_job self);
          current_status = (case current_job self of
                              Some j \<Rightarrow> Job_status (status (jobs s j))
                            | None \<Rightarrow> if is_paused self then Paused_no_job else Idle)
      in printer_send_update p
           (Printer_status \<lparr>info_id = printer_id self, info_name = printer_name self,
                            info_job = job_snapshot, info_status = current_status\<rparr>) s)"

text \<open>
  \<^verbatim>\<open>run_cycle\<close> sleeps for the time of one page between reporting the job and counting the
  page, and the other threads run meanwhile. The model cuts the method at that sleep:
  \<open>run_cycle_start\<close> is the code before \<^verbatim>\<open>time.sleep(0.5)\<close> (it tells whether the sleep
  was reached), \<open>run_cycle_finish\<close> the code after it, and \<open>run_cycle\<close> runs both with what
  the other threads did during the sleep in between. Each half runs as one step.
\<close>

definition run_cycle_start :: "ref \<Rightarrow> system \<Rightarrow> (py_error + bool) \<times> system" where
  "run_cycle_start p s =
     (if is_paused (devices s p)
      then (Inr False,
            send_status_update p
              (case current_job (devices s p) of Some j \<Rightarrow> set_status j Paused s | None \<Rightarrow> s))
      else case current_job (devices s p) of
             Some j \<Rightarrow> (Inr True, send_status_update p s)
           | None \<Rightarrow>
               let s1 = send_status_update p s
               in if shutdown_flag (devices s1 p) then (Inr False, s1)
                  else case get_next_job (printer_id (devices s1 p)) s1 of
                         (Inl e, s2) \<Rightarrow> (Inl e, s2)
                       | (Inr None, s2) \<Rightarrow> (Inr False, set_current_job p None s2)
                       | (Inr (Some j), s2) \<Rightarrow>
                           (Inr True,
                            send_status_update p
                              (printer_log p (Msg_started (file_name (jobs s2 j)))
                                 (set_status j Printing (set_current_job p (Some j) s2)))))"

definition count_page :: "ref \<Rightarrow> system \<Rightarrow> system" where
  \<comment> \<open>\<^verbatim>\<open>progress += 1\<close> and \<^verbatim>\<open>pages_remaining -= 1\<close> on the job object \<open>j\<close>\<close>
  "count_page j s =
     s\<lparr>jobs := (jobs s)(j := (jobs s j)\<lparr>progress := progress (jobs s j) + 1,
                                        pages_remaining := pages_remaining (jobs s j) - 1\<rparr>)\<rparr>"

definition run_cycle_finish :: "ref \<Rightarrow> system \<Rightarrow> (py_error + unit) \<times> system" where
  \<comment> \<open>A printer that reaches this code has a job; \<^verbatim>\<open>None.progress\<close> would raise.\<close>
  "run_cycle_finish p s =
     (if is_paused (devices s p) \<or> shutdown_flag (devices s p) then (Inr (), s)
      else case current_job (devices s p) of
             None \<Rightarrow> (Inl AttributeError, s)
           | Some j \<Rightarrow>
               let s1 = count_page j s
               in if cancel_current_job (devices s1 p)
                  then (Inr (),
                        send_status_update p
                          (set_cancel_current_job p False
                             (set_current_job p None
                                (set_status j Canceled
                                   (printer_log p (Msg_canceled (file_name (jobs s1 j))) s1)))))
                  else case preempt_with_job (devices s1 p) of
                         Some n \<Rightarrow>
                           (case add_job_to_queue j True
                                   (set_status j Queued_Preempted
                                      (printer_log p (Msg_preempted_by (file_name (jobs s1 n))) s1)) of
                              (Inl e, s3) \<Rightarrow> (Inl e, s3)
                            | (Inr _, s3) \<Rightarrow>
                                let s4 = set_current_job p (preempt_with_job (devices s3 p)) s3
                                in (Inr (),
                                    set_preempt_with_job p None
                                      (case current_job (devices s4 p) of
                                         Some c \<Rightarrow> set_status c Printing s4
                                       | None \<Rightarrow> s4)))
                       | None \<Rightarrow>
                           if progress (jobs s1 j) \<ge> pages (jobs s1 j)
                           then (Inr (),
                                 send_status_update p
                                   (set_current_job p None
                                      (set_status j Completed
                                         (printer_log p (Msg_finished (file_name (jobs s1 j))) s1))))
                           else (Inr (), s1))"

definition run_cycle :: "(system \<Rightarrow> system) \<Rightarrow> ref \<Rightarrow> system \<Rightarrow> (py_error + unit) \<times> system" where
  \<comment> \<open>The first argument is what the other threads do during the sleep.\<close>
  "run_cycle others p s =
     (case run_cycle_start p s of
        (Inl e, s1) \<Rightarrow> (Inl e, s1)
      | (Inr False, s1) \<Rightarrow> (Inr (), s1)
      | (Inr True, s1) \<Rightarrow> run_cycle_finish p (others s1))"

definition toggle_pause :: "ref \<Rightarrow> system \<Rightarrow> system" where
  "toggle_pause p s =
     (if is_paused (devices s p)
      then let s1 = set_is_paused p False s
           in send_status_update p
                (printer_log p Msg_resumed
                   (case current_job (devices s1 p) of
                      Some j \<Rightarrow> set_status j Printing s1 | None \<Rightarrow> s1))
      else let s1 = set_is_paused p True s
           in send_status_update p
                (printer_log p Msg_paused
                   (case current_job (devices s1 p) of
                      Some j \<Rightarrow> set_status j Paused s1 | None \<Rightarrow> s1)))"

subsection \<open>Concrete states\<close>

text \<open>
  A manager with one registered printer that holds a five-page job of which two pages are
  printed; the two parameters are the printer's pause flag and the job's status.
\<close>

definition demo_job :: "int \<Rightarrow> status \<Rightarrow> int \<Rightarrow> PrintJob" where
  "demo_job n st done = \<lparr>job_id = ''a1b2c3d4'', file_name = ''report.pdf'', file_path = ''/tmp/report.pdf'',
      pages = n, status = st, progress = done, pages_remaining = n - done\<rparr>"

definition demo_system :: "bool \<Rightarrow> status \<Rightarrow> system" where
  "demo_system paused st =
     \<lparr>jobs = (\<lambda>_. demo_job 5 st 2),
      devices = (\<lambda>_. (Printer_init 1 ''P1'')\<lparr>current_job := Some 0, is_paused := paused\<rparr>),
      job_queue = [], printers = [(1, 0)], algorithm = FCFS, update_queue = []\<rparr>"

text \<open>
  A manager under SRTF with three registered printers and five queued jobs. Job number
  \<open>r\<close> has \<open>r\<close> pages, none printed yet. Printers 0 and 2 print jobs of 30 pages,
  printer 1 is paused on a job of 40 pages.
\<close>

definition numbered_job :: "ref \<Rightarrow> PrintJob" where
  "numbered_job r =
     (PrintJob_init (replicate r CHR ''j'') ''doc.pdf'' ''/tmp/doc.pdf'' (int r))
     \<lparr>status := (if r = 30 then Printing else if r = 40 then Paused else Queued)\<rparr>"

definition srtf_system :: system where
  "srtf_system =
     \<lparr>jobs = numbered_job,
      devices = (\<lambda>k. (Printer_init (int k) ''P'')
                   \<lparr>current_job := (if k = 0 \<or> k = 2 then Some 30 else if k = 1 then Some 40 else None),
                    is_paused := (k = 1)\<rparr>),
      job_queue = [1, 2, 3, 4, 5],
      printers = [(0, 0), (1, 1), (2, 2)],
      algorithm = SRTF,
      update_queue = []\<rparr>"

text \<open>
  A session at the user interface, step by step. A call that raises ends the session, as
  \<open>and_then\<close> says. One printer is connected and a job of 40 pages is submitted and
  started; four jobs of 1, 2, 3 and 4 pages are submitted, which makes the policy SRTF; a
  job of 5 pages is submitted and is handed to the printer as preemption payload; the
  user cancels the job that is printing, and the printer cancels it at its next
  checkpoint; the printer takes the one-page job, prints its page and, at the checkpoint,
  swaps it for the payload; a second printer is connected and runs one cycle.
\<close>

definition and_then ::
  "(py_error + 'a) \<times> system \<Rightarrow> (system \<Rightarrow> (py_error + 'b) \<times> system) \<Rightarrow> (py_error + 'b) \<times> system" where
  "and_then r f = (case r of (Inl e, s) \<Rightarrow> (Inl e, s) | (Inr _, s) \<Rightarrow> f s)"

definition returning :: "(system \<Rightarrow> system) \<Rightarrow> system \<Rightarrow> (py_error + unit) \<times> system" where
  "returning f s = (Inr (), f s)"

definition fresh_system :: system where
  "fresh_system =
     \<lparr>jobs = (\<lambda>r. PrintJob_init (replicate r CHR ''j'') ''doc.pdf'' ''/tmp/doc.pdf'' (int r)),
      devices = (\<lambda>k. Printer_init (int k) ''P''),
      job_queue = [], printers = [], algorithm = FCFS, update_queue = []\<rparr>"

definition session_start :: "(py_error + unit) \<times> system" where
  "session_start =
     and_then (and_then (and_then (and_then (and_then (and_then (and_then
       (returning (add_printer 0) fresh_system)
       (add_job_to_queue 40 False))
       (run_cycle (\<lambda>s. s) 0))
       (add_job_to_queue 1 False))
       (add_job_to_queue 2 False))
       (add_job_to_queue 3 False))
       (add_job_to_queue 4 False))
       (add_job_to_queue 5 False)"

definition session_cancel :: "(py_error + unit) \<times> system" where
  "session_cancel =
     and_then (and_then session_start
       (returning (cancel_job (replicate 40 CHR ''j''))))
       (run_cycle (\<lambda>s. s) 0)"

definition session_swap :: "(py_error + unit) \<times> system" where
  "session_swap = and_then session_cancel (run_cycle (\<lambda>s. s) 0)"

definition session_end :: "(py_error + unit) \<times> system" where
  "session_end =
     and_then (and_then session_swap (returning (add_printer 1))) (run_cycle (\<lambda>s. s) 1)"

text \<open>
  Four pending jobs of \<open>2 ^ 1024\<close> pages each, a number of 309 digits, which the page
  field of the user interface accepts.
\<close>

definition huge_system :: system where
  "huge_system =
     \<lparr>jobs = (\<lambda>r. PrintJob_init ''a1b2c3d4'' ''book.pdf'' ''/tmp/book.pdf'' (2 ^ 1024)),
      devices = (\<lambda>k. Printer_init (int k) ''P''),
      job_queue = [1, 2, 3, 4], printers = [], algorithm = FCFS, update_queue = []\<rparr>"

text \<open>
  The state in which that session leaves the manager before the printer's next cycle, as
  far as the next two cycles read it: printer 0 is idle and still has job 5 as preemption
  payload, the jobs 1 to 4 are pending under SRTF, and printer 1 is connected and idle.
\<close>

definition lingering_system :: system where
  "lingering_system =
     fresh_system
     \<lparr>devices := (devices fresh_system)(0 := (Printer_init 0 ''P'')\<lparr>preempt_with_job := Some 5\<rparr>),
      job_queue := [1, 2, 3, 4],
      printers := [(0, 0), (1, 1)],
      algorithm := SRTF\<rparr>"

subsection \<open>Words of the specification\<close>

text \<open>
  A worker is actively printing when it holds a job and its pause flag is not set; what
  remains on a worker is the \<^verbatim>\<open>pages_remaining\<close> of the job it holds.
\<close>

definition total_remaining :: "system \<Rightarrow> int" where
  "total_remaining s = sum_list (map (\<lambda>j. pages_remaining (jobs s j)) (job_queue s))"

definition mean_remaining :: "system \<Rightarrow> rat" where
  \<comment> \<open>The exact mean of \<^verbatim>\<open>pages_remaining\<close> over the pending jobs.\<close>
  "mean_remaining s = of_int (total_remaining s) / of_nat (length (job_queue s))"

definition actively_printing :: "system \<Rightarrow> ref \<Rightarrow> bool" where
  "actively_printing s p = (current_job (devices s p) \<noteq> None \<and> \<not> is_paused (devices s p))"

definition remaining_on :: "system \<Rightarrow> ref \<Rightarrow> int" where
  "remaining_on s p =
     (case current_job (devices s p) of Some j \<Rightarrow> pages_remaining (jobs s j) | None \<Rightarrow> 0)"

section \<open>Properties\<close>

subsection \<open>The double nearest to a quotient\<close>

lemma pow2_powi: "pow2 k = 2 powi k"
  by (simp add: pow2_def power_int_def field_simps power_inverse)

lemma pow2_add: "pow2 (a + b) = pow2 a * pow2 b"
  by (simp add: pow2_powi power_int_add)

lemma pow2_pos [simp]: "0 < pow2 k"
  by (simp add: pow2_powi)

lemma pow2_mono: "a \<le> b \<Longrightarrow> pow2 a \<le> pow2 b"
  by (simp add: pow2_powi power_int_increasing)

lemma pow2_strict_mono: "a < b \<Longrightarrow> pow2 a < pow2 b"
  by (simp add: pow2_powi power_int_strict_increasing)

lemma pow2_le_cancel: "pow2 a \<le> pow2 b \<Longrightarrow> a \<le> b"
  using pow2_strict_mono [of b a] by (cases "a \<le> b") auto

lemma pow2_less_cancel: "pow2 a < pow2 b \<Longrightarrow> a < b"
  using pow2_mono [of b a] by (cases "a < b") auto

lemma pow2_nat: "pow2 (int k) = 2 ^ k"
  by (simp add: pow2_def)

lemma pow2_neg: "pow2 (- k) = 1 / pow2 k"
  using pow2_add [of k "- k"] by (simp add: pow2_def field_simps)

lemma scaled_ratio:
  assumes "0 < d" "scaled n d k = (n', d')"
  shows "0 < d'" and "of_int n' / of_int d' = (of_int n / of_int d :: rat) * pow2 k"
  using assms by (auto simp: scaled_def pow2_def split: if_splits)

lemma round_half_even_near:
  assumes "0 < d"
  shows "2 * n - d \<le> 2 * round_half_even n d * d \<and> 2 * round_half_even n d * d \<le> 2 * n + d"
proof -
  have e: "n = d * (n div d) + n mod d" by simp
  have r: "0 \<le> n mod d" "n mod d < d" using assms by simp_all
  define q where "q = n div d"
  define m where "m = n mod d"
  have e': "n = d * q + m" "0 \<le> m" "m < d" using e r by (simp_all add: q_def m_def)
  have "round_half_even n d = q \<and> 2 * m \<le> d \<or> round_half_even n d = q + 1 \<and> d \<le> 2 * m"
    by (auto simp: round_half_even_def Let_def q_def m_def)
  then show ?thesis
    using e' by (auto simp: algebra_simps)
qed

lemma round_half_even_le:
  assumes "0 < d" "(of_int n / of_int d :: rat) \<le> of_int K"
  shows "round_half_even n d \<le> K"
proof -
  from assms have "(of_int n :: rat) \<le> of_int K * of_int d"
    by (simp add: pos_divide_le_eq)
  then have n: "n \<le> K * d"
    by (metis of_int_le_iff of_int_mult)
  from round_half_even_near [OF assms(1), of n] have "2 * round_half_even n d * d \<le> 2 * n + d"
    by simp
  with n have "2 * round_half_even n d * d \<le> (2 * K + 1) * d"
    by (simp add: algebra_simps)
  with assms(1) have "2 * round_half_even n d \<le> 2 * K + 1"
    by simp
  then show ?thesis by simp
qed

lemma round_half_even_ge:
  assumes "0 < d" "of_int K \<le> (of_int n / of_int d :: rat)"
  shows "K \<le> round_half_even n d"
proof -
  from assms have "of_int K * of_int d \<le> (of_int n :: rat)"
    by (simp add: pos_le_divide_eq)
  then have n: "K * d \<le> n"
    by (metis of_int_le_iff of_int_mult)
  from round_half_even_near [OF assms(1), of n] have "2 * n - d \<le> 2 * round_half_even n d * d"
    by simp
  with n have "(2 * K - 1) * d \<le> 2 * round_half_even n d * d"
    by (simp add: algebra_simps)
  with assms(1) have "2 * K - 1 \<le> 2 * round_half_even n d"
    by simp
  then show ?thesis by simp
qed

lemma round_half_even_gt:
  assumes "0 < d" "of_int K + 1 / 2 < (of_int n / of_int d :: rat)"
  shows "K + 1 \<le> round_half_even n d"
proof -
  from assms have "(of_int K + 1 / 2) * of_int d < (of_int n :: rat)"
    by (simp add: pos_less_divide_eq)
  then have "of_int ((2 * K + 1) * d) < (of_int (2 * n) :: rat)"
    by (simp add: algebra_simps)
  then have n: "(2 * K + 1) * d < 2 * n"
    by (simp only: of_int_less_iff)
  from round_half_even_near [OF assms(1), of n] have "2 * n - d \<le> 2 * round_half_even n d * d"
    by simp
  with n have "(2 * K) * d < 2 * round_half_even n d * d"
    by (simp add: algebra_simps)
  with assms(1) have "2 * K < 2 * round_half_even n d"
    by simp
  then show ?thesis by simp
qed

lemma bit_length_bounds:
  "0 < n \<Longrightarrow> 2 ^ (bit_length n - 1) \<le> n \<and> n < 2 ^ bit_length n"
proof (induction n rule: bit_length.induct)
  case (1 n)
  show ?case
  proof (cases "n div 2 = 0")
    case True
    with 1(2) have "n = 1" by (simp add: div_eq_0_iff) 
    then show ?thesis by (simp add: bit_length.simps)
  next
    case False
    with 1 have ih: "2 ^ (bit_length (n div 2) - 1) \<le> n div 2 \<and> n div 2 < 2 ^ bit_length (n div 2)"
      by simp
    have pos: "0 < bit_length (n div 2)"
      using False by (simp add: bit_length.simps)
    have bl: "bit_length n = Suc (bit_length (n div 2))"
      using 1(2) by (simp add: bit_length.simps)
    have "(2::nat) ^ (bit_length n - 1) = 2 * 2 ^ (bit_length (n div 2) - 1)"
      using pos bl by (cases "bit_length (n div 2)") simp_all
    also have "\<dots> \<le> 2 * (n div 2)"
      using ih by simp
    also have "\<dots> \<le> n"
      by simp
    finally have lo: "2 ^ (bit_length n - 1) \<le> n" .
    from ih have "Suc (n div 2) \<le> 2 ^ bit_length (n div 2)"
      by simp
    then have "2 * Suc (n div 2) \<le> 2 * 2 ^ bit_length (n div 2)"
      by (rule mult_le_mono2)
    moreover have "n < 2 * Suc (n div 2)"
      by simp
    ultimately have "n < 2 ^ bit_length n"
      using bl by simp
    with lo show ?thesis by simp
  qed
qed

lemma bit_length_pow2:
  assumes "0 < n"
  shows "pow2 (int (bit_length (nat n)) - 1) \<le> of_int n"
    and "of_int n < pow2 (int (bit_length (nat n)))"
proof -
  from assms have p: "0 < nat n" by simp
  from bit_length_bounds [OF p]
  have b: "2 ^ (bit_length (nat n) - 1) \<le> nat n" "nat n < 2 ^ bit_length (nat n)"
    by simp_all
  have pos: "0 < bit_length (nat n)"
    using p by (simp add: bit_length.simps)
  then have "int (bit_length (nat n)) - 1 = int (bit_length (nat n) - 1)"
    by simp
  then have "pow2 (int (bit_length (nat n)) - 1) = 2 ^ (bit_length (nat n) - 1)"
    by (simp only: pow2_nat)
  also have "\<dots> = of_nat (2 ^ (bit_length (nat n) - 1))"
    by simp
  also have "\<dots> \<le> (of_nat (nat n) :: rat)"
    using b(1) by (simp only: of_nat_le_iff)
  also have "\<dots> = of_int n"
    using assms by simp
  finally show "pow2 (int (bit_length (nat n)) - 1) \<le> of_int n" .
  have "(of_int n :: rat) = of_nat (nat n)"
    using assms by simp
  also have "\<dots> < of_nat (2 ^ bit_length (nat n))"
    using b(2) by (simp only: of_nat_less_iff)
  also have "\<dots> = pow2 (int (bit_length (nat n)))"
    by (simp add: pow2_nat)
  finally show "of_int n < pow2 (int (bit_length (nat n)))" .
qed

lemma exponent_bounds:
  assumes "0 < n" "0 < d"
  shows "pow2 (exponent n d) \<le> of_int n / of_int d"
    and "of_int n / of_int d < pow2 (exponent n d + 1)"
proof -
  define g where "g = int (bit_length (nat n)) - int (bit_length (nat d))"
  define x :: rat where "x = of_int n / of_int d"
  obtain n' d' where sc: "scaled n d (- g) = (n', d')"
    by (cases "scaled n d (- g)")
  from scaled_ratio [OF assms(2) sc] have d': "0 < d'" and r: "of_int n' / of_int d' = x * pow2 (- g)"
    by (simp_all add: x_def)
  have dpos: "(0::rat) < of_int d" using assms by simp
  have test: "d' \<le> n' \<longleftrightarrow> pow2 g \<le> x"
  proof -
    have "d' \<le> n' \<longleftrightarrow> (1::rat) \<le> of_int n' / of_int d'"
      using d' by (simp add: pos_le_divide_eq)
    also have "\<dots> \<longleftrightarrow> 1 \<le> x / pow2 g"
      by (simp add: r pow2_neg)
    also have "\<dots> \<longleftrightarrow> pow2 g \<le> x"
      by (simp add: pos_le_divide_eq)
    finally show ?thesis .
  qed
  have e: "exponent n d = (if pow2 g \<le> x then g else g - 1)"
    using sc test by (simp add: exponent_def g_def [symmetric])
  have up: "x < pow2 (g + 1)"
  proof -
    have "of_int n < pow2 (int (bit_length (nat n)))"
      by (rule bit_length_pow2 [OF assms(1)])
    also have "\<dots> = pow2 (g + 1) * pow2 (int (bit_length (nat d)) - 1)"
      by (simp add: g_def flip: pow2_add)
    also have "\<dots> \<le> pow2 (g + 1) * of_int d"
      using bit_length_pow2(1) [OF assms(2)] by (simp add: mult_left_mono less_imp_le)
    finally show ?thesis
      using dpos by (simp add: x_def pos_divide_less_eq)
  qed
  have lo: "pow2 (g - 1) \<le> x"
  proof -
    have "pow2 (g - 1) * of_int d \<le> pow2 (g - 1) * pow2 (int (bit_length (nat d)))"
      using bit_length_pow2(2) [OF assms(2)] by (simp add: mult_left_mono less_imp_le)
    also have "\<dots> = pow2 (int (bit_length (nat n)) - 1)"
      by (simp add: g_def flip: pow2_add)
    also have "\<dots> \<le> of_int n"
      by (rule bit_length_pow2 [OF assms(1)])
    finally show ?thesis
      using dpos by (simp add: x_def pos_le_divide_eq)
  qed
  show "pow2 (exponent n d) \<le> of_int n / of_int d"
    using lo by (simp add: e x_def [symmetric])
  show "of_int n / of_int d < pow2 (exponent n d + 1)"
    using up by (auto simp: e x_def [symmetric])
qed

lemma nearest_double_pos:
  assumes "0 < n" "0 < d"
  shows "\<exists>m. nearest_double n d =
           (if pow2 1024 \<le> of_int m * pow2 (max (exponent n d) (- 1022) - 52)
            then Inl OverflowError
            else Inr (of_int m * pow2 (max (exponent n d) (- 1022) - 52))) \<and>
          (\<forall>K. of_int n / of_int d * pow2 (52 - max (exponent n d) (- 1022)) \<le> of_int K \<longrightarrow> m \<le> K) \<and>
          (\<forall>K. of_int K \<le> of_int n / of_int d * pow2 (52 - max (exponent n d) (- 1022)) \<longrightarrow> K \<le> m) \<and>
          (\<forall>K. of_int K + 1 / 2 < of_int n / of_int d * pow2 (52 - max (exponent n d) (- 1022))
               \<longrightarrow> K + 1 \<le> m)"
proof -
  define e where "e = max (exponent n d) (- 1022)"
  obtain n' d' where sc: "scaled n d (52 - e) = (n', d')"
    by (cases "scaled n d (52 - e)")
  from scaled_ratio [OF assms(2) sc]
  have d': "0 < d'" and r: "of_int n' / of_int d' = (of_int n / of_int d :: rat) * pow2 (52 - e)"
    by simp_all
  have "nearest_double n d =
           (if pow2 1024 \<le> of_int (round_half_even n' d') * pow2 (e - 52)
            then Inl OverflowError
            else Inr (of_int (round_half_even n' d') * pow2 (e - 52)))"
    using assms(1) sc by (simp add: nearest_double_def Let_def e_def [symmetric])
  moreover have "\<forall>K. of_int n / of_int d * pow2 (52 - e) \<le> of_int K \<longrightarrow> round_half_even n' d' \<le> K"
    using round_half_even_le [OF d'] by (simp add: r)
  moreover have "\<forall>K. of_int K \<le> of_int n / of_int d * pow2 (52 - e) \<longrightarrow> K \<le> round_half_even n' d'"
    using round_half_even_ge [OF d'] by (simp add: r)
  moreover have "\<forall>K. of_int K + 1 / 2 < of_int n / of_int d * pow2 (52 - e) \<longrightarrow> K + 1 \<le> round_half_even n' d'"
    using round_half_even_gt [OF d'] by (simp add: r)
  ultimately show ?thesis
    unfolding e_def by blast
qed

lemma pow2_numeral: "pow2 (numeral k) = 2 ^ numeral k"
  by (simp add: pow2_def)

lemma nearest_double_le:
  assumes "0 < n" "0 < d" "n \<le> K * d" "K < 2 ^ 53"
  shows "\<exists>v. nearest_double n d = Inr v \<and> 0 \<le> v \<and> v \<le> of_int K"
proof -
  define x :: rat where "x = of_int n / of_int d"
  define e where "e = max (exponent n d) (- 1022)"
  have xpos: "0 < x" using assms by (simp add: x_def)
  have "(of_int n :: rat) \<le> of_int (K * d)"
    using assms(3) by (simp only: of_int_le_iff)
  then have xK: "x \<le> of_int K"
    using assms(2) by (simp add: x_def pos_divide_le_eq)
  have "(of_int K :: rat) < of_int (2 ^ 53)"
    using assms(4) by (simp only: of_int_less_iff)
  then have K53: "(of_int K :: rat) < pow2 53"
    by (simp add: pow2_numeral)
  have "pow2 (exponent n d) \<le> x"
    using exponent_bounds(1) [OF assms(1,2)] by (simp add: x_def)
  with xK K53 have "pow2 (exponent n d) < pow2 53" by simp
  then have "exponent n d < 53" by (rule pow2_less_cancel)
  then have e52: "e \<le> 52" by (simp add: e_def)
  from nearest_double_pos [OF assms(1,2)] obtain m where
    nd: "nearest_double n d =
           (if pow2 1024 \<le> of_int m * pow2 (e - 52) then Inl OverflowError
            else Inr (of_int m * pow2 (e - 52)))"
    and le: "\<And>K. x * pow2 (52 - e) \<le> of_int K \<Longrightarrow> m \<le> K"
    and ge: "\<And>K. of_int K \<le> x * pow2 (52 - e) \<Longrightarrow> K \<le> m"
    unfolding e_def x_def by blast
  have p: "pow2 (52 - e) = of_int (2 ^ nat (52 - e))"
    using e52 by (simp add: pow2_def)
  have "x * pow2 (52 - e) \<le> of_int K * pow2 (52 - e)"
    using xK by (simp add: mult_right_mono less_imp_le)
  also have "\<dots> = of_int (K * 2 ^ nat (52 - e))"
    by (simp add: p)
  finally have "m \<le> K * 2 ^ nat (52 - e)"
    by (rule le)
  then have "(of_int m :: rat) \<le> of_int (K * 2 ^ nat (52 - e))"
    by (simp only: of_int_le_iff)
  then have "(of_int m :: rat) \<le> of_int K * pow2 (52 - e)"
    by (simp add: p)
  then have "of_int m * pow2 (e - 52) \<le> of_int K * pow2 (52 - e) * pow2 (e - 52)"
    by (simp add: mult_right_mono less_imp_le)
  also have "\<dots> = of_int K * pow2 ((52 - e) + (e - 52))"
    by (simp only: pow2_add mult.assoc)
  also have "\<dots> = of_int K"
    by (simp add: pow2_def)
  finally have vK: "of_int m * pow2 (e - 52) \<le> of_int K" .
  have "0 \<le> x * pow2 (52 - e)"
    using xpos by (simp add: less_imp_le)
  then have "(of_int 0 :: rat) \<le> x * pow2 (52 - e)" by simp
  then have "0 \<le> m" by (rule ge)
  then have v0: "0 \<le> of_int m * pow2 (e - 52)"
    by (simp add: less_imp_le)
  have "pow2 53 \<le> pow2 1024" by (rule pow2_mono) simp
  with vK K53 have "\<not> pow2 1024 \<le> of_int m * pow2 (e - 52)" by simp
  with nd vK v0 show ?thesis by simp
qed

lemma nearest_double_overflow:
  assumes "0 < d" "2 ^ 1024 * d \<le> n"
  shows "nearest_double n d = Inl OverflowError"
proof -
  define x :: rat where "x = of_int n / of_int d"
  define e where "e = max (exponent n d) (- 1022)"
  have npos: "0 < n"
  proof -
    have "0 < 2 ^ 1024 * d" using assms(1) by simp
    with assms(2) show ?thesis by linarith
  qed
  have "(of_int (2 ^ 1024 * d) :: rat) \<le> of_int n"
    using assms(2) by (simp only: of_int_le_iff)
  then have "pow2 1024 * of_int d \<le> (of_int n :: rat)"
    by (simp add: pow2_numeral)
  then have big: "pow2 1024 \<le> x"
    using assms(1) by (simp add: x_def pos_le_divide_eq)
  have "x < pow2 (exponent n d + 1)"
    using exponent_bounds(2) [OF npos assms(1)] by (simp add: x_def)
  with big have "pow2 1024 < pow2 (exponent n d + 1)" by simp
  then have "1024 < exponent n d + 1" by (rule pow2_less_cancel)
  then have ee: "e = exponent n d" "1024 \<le> e" by (simp_all add: e_def)
  from nearest_double_pos [OF npos assms(1)] obtain m where
    nd: "nearest_double n d =
           (if pow2 1024 \<le> of_int m * pow2 (e - 52) then Inl OverflowError
            else Inr (of_int m * pow2 (e - 52)))"
    and ge: "\<And>K. of_int K \<le> x * pow2 (52 - e) \<Longrightarrow> K \<le> m"
    unfolding e_def x_def by blast
  have "pow2 52 = pow2 e * pow2 (52 - e)"
    by (simp flip: pow2_add)
  also have "\<dots> \<le> x * pow2 (52 - e)"
  proof (rule mult_right_mono)
    show "pow2 e \<le> x"
      using exponent_bounds(1) [OF npos assms(1)] ee(1) by (simp add: x_def)
    show "0 \<le> pow2 (52 - e)"
      by (simp add: less_imp_le)
  qed
  finally have "(of_int (2 ^ 52) :: rat) \<le> x * pow2 (52 - e)"
    by (simp add: pow2_numeral)
  then have "2 ^ 52 \<le> m" by (rule ge)
  then have "(of_int (2 ^ 52) :: rat) \<le> of_int m"
    by (simp only: of_int_le_iff)
  then have "pow2 52 \<le> of_int m"
    by (simp add: pow2_numeral)
  then have "pow2 52 * pow2 (e - 52) \<le> of_int m * pow2 (e - 52)"
    by (simp add: mult_right_mono less_imp_le)
  then have "pow2 e \<le> of_int m * pow2 (e - 52)"
    by (simp flip: pow2_add)
  moreover have "pow2 1024 \<le> pow2 e"
    using ee(2) by (rule pow2_mono)
  ultimately have "pow2 1024 \<le> of_int m * pow2 (e - 52)" by simp
  with nd show ?thesis by simp
qed

lemma nearest_double_in_range:
  assumes "0 < n" "0 < d" "n < 2 ^ 1023 * d"
  shows "\<exists>v. nearest_double n d = Inr v \<and> 0 \<le> v"
proof -
  define x :: rat where "x = of_int n / of_int d"
  define e where "e = max (exponent n d) (- 1022)"
  have xpos: "0 < x" using assms by (simp add: x_def)
  have "(of_int n :: rat) < of_int (2 ^ 1023 * d)"
    using assms(3) by (simp only: of_int_less_iff)
  then have "(of_int n :: rat) < pow2 1023 * of_int d"
    by (simp add: pow2_numeral)
  then have small: "x < pow2 1023"
    using assms(2) by (simp add: x_def pos_divide_less_eq)
  have lo: "pow2 (exponent n d) \<le> x" and hi: "x < pow2 (exponent n d + 1)"
    using exponent_bounds [OF assms(1,2)] by (simp_all add: x_def)
  from lo small have "pow2 (exponent n d) < pow2 1023" by simp
  then have "exponent n d < 1023" by (rule pow2_less_cancel)
  then have e1022: "e \<le> 1022" by (simp add: e_def)
  have "exponent n d + 1 \<le> e + 1" by (simp add: e_def)
  then have "pow2 (exponent n d + 1) \<le> pow2 (e + 1)" by (rule pow2_mono)
  with hi have hi': "x < pow2 (e + 1)" by simp
  from nearest_double_pos [OF assms(1,2)] obtain m where
    nd: "nearest_double n d =
           (if pow2 1024 \<le> of_int m * pow2 (e - 52) then Inl OverflowError
            else Inr (of_int m * pow2 (e - 52)))"
    and le: "\<And>K. x * pow2 (52 - e) \<le> of_int K \<Longrightarrow> m \<le> K"
    and ge: "\<And>K. of_int K \<le> x * pow2 (52 - e) \<Longrightarrow> K \<le> m"
    unfolding e_def x_def by blast
  have "x * pow2 (52 - e) \<le> pow2 (e + 1) * pow2 (52 - e)"
  proof (rule mult_right_mono)
    show "x \<le> pow2 (e + 1)" using hi' by simp
    show "0 \<le> pow2 (52 - e)" by (simp add: less_imp_le)
  qed
  also have "\<dots> = pow2 53"
    by (simp flip: pow2_add)
  finally have "x * pow2 (52 - e) \<le> of_int (2 ^ 53)"
    by (simp add: pow2_numeral)
  then have "m \<le> 2 ^ 53" by (rule le)
  then have "(of_int m :: rat) \<le> of_int (2 ^ 53)"
    by (simp only: of_int_le_iff)
  then have "of_int m \<le> pow2 53"
    by (simp add: pow2_numeral)
  then have "of_int m * pow2 (e - 52) \<le> pow2 53 * pow2 (e - 52)"
    by (simp add: mult_right_mono less_imp_le)
  also have "\<dots> = pow2 (e + 1)"
    using pow2_add [of 53 "e - 52"] by (simp add: add.commute)
  also have "\<dots> \<le> pow2 1023"
    using e1022 by (intro pow2_mono) simp
  also have "\<dots> < pow2 1024"
    by (rule pow2_strict_mono) simp
  finally have no: "\<not> pow2 1024 \<le> of_int m * pow2 (e - 52)" by simp
  have "0 \<le> x * pow2 (52 - e)"
    using xpos by (simp add: less_imp_le)
  then have "(of_int 0 :: rat) \<le> x * pow2 (52 - e)" by simp
  then have "0 \<le> m" by (rule ge)
  then have "0 \<le> of_int m * pow2 (e - 52)"
    by (simp add: less_imp_le)
  with nd no show ?thesis by simp
qed

lemma nearest_double_gt20:
  assumes "0 < d" "20 * d < n" "d < 2 ^ 49" "n < 2 ^ 1023 * d"
  shows "\<exists>v. nearest_double n d = Inr v \<and> 20 < v"
proof -
  define x :: rat where "x = of_int n / of_int d"
  define e where "e = max (exponent n d) (- 1022)"
  have npos: "0 < n" using assms(1,2) by linarith
  have dpos: "(0::rat) < of_int d" using assms(1) by simp
  from nearest_double_in_range [OF npos assms(1,4)] obtain v where
    v: "nearest_double n d = Inr v" by blast
  from nearest_double_pos [OF npos assms(1)] obtain m where
    nd: "nearest_double n d =
           (if pow2 1024 \<le> of_int m * pow2 (e - 52) then Inl OverflowError
            else Inr (of_int m * pow2 (e - 52)))"
    and ge: "\<And>K. of_int K \<le> x * pow2 (52 - e) \<Longrightarrow> K \<le> m"
    and gt: "\<And>K. of_int K + 1 / 2 < x * pow2 (52 - e) \<Longrightarrow> K + 1 \<le> m"
    unfolding e_def x_def by blast
  from v nd have veq: "v = of_int m * pow2 (e - 52)"
    by (simp split: if_splits)
  have lo: "pow2 (exponent n d) \<le> x" and hi: "x < pow2 (exponent n d + 1)"
    using exponent_bounds [OF npos assms(1)] by (simp_all add: x_def)
  have "20 * d + 1 \<le> n" using assms(2) by simp
  then have "(of_int (20 * d + 1) :: rat) \<le> of_int n"
    by (simp only: of_int_le_iff)
  then have x20: "20 + 1 / of_int d \<le> x"
    using dpos by (simp add: x_def pos_le_divide_eq algebra_simps)
  have "(0::rat) < 1 / of_int d" using dpos by simp
  with x20 have "16 < x" by linarith
  then have "pow2 4 < x" by (simp add: pow2_numeral)
  with hi have "pow2 4 < pow2 (exponent n d + 1)" by simp
  then have "4 < exponent n d + 1" by (rule pow2_less_cancel)
  then have ee: "e = exponent n d" "4 \<le> e" by (simp_all add: e_def)
  show ?thesis
  proof (cases "5 \<le> e")
    case True
    have "pow2 52 = pow2 e * pow2 (52 - e)"
      by (simp flip: pow2_add)
    also have "\<dots> \<le> x * pow2 (52 - e)"
    proof (rule mult_right_mono)
      show "pow2 e \<le> x" using lo ee(1) by simp
      show "0 \<le> pow2 (52 - e)" by (simp add: less_imp_le)
    qed
    finally have "(of_int (2 ^ 52) :: rat) \<le> x * pow2 (52 - e)"
      by (simp add: pow2_numeral)
    then have "2 ^ 52 \<le> m" by (rule ge)
    then have "(of_int (2 ^ 52) :: rat) \<le> of_int m"
      by (simp only: of_int_le_iff)
    then have "pow2 52 \<le> of_int m"
      by (simp add: pow2_numeral)
    then have "pow2 52 * pow2 (e - 52) \<le> of_int m * pow2 (e - 52)"
      by (simp add: mult_right_mono less_imp_le)
    then have "pow2 e \<le> v"
      by (simp add: veq flip: pow2_add)
    moreover have "pow2 5 \<le> pow2 e"
      using True by (rule pow2_mono)
    moreover have "(20::rat) < pow2 5"
      by (simp add: pow2_numeral)
    ultimately have "20 < v" by simp
    with v show ?thesis by simp
  next
    case False
    with ee have e4: "e = 4" by simp
    have "(of_int d :: rat) < of_int (2 ^ 49)"
      using assms(3) by (simp only: of_int_less_iff)
    then have d49: "(of_int d :: rat) < 2 ^ 49" by simp
    then have "1 / 2 < (2 ^ 48 :: rat) / of_int d"
      using dpos by (simp add: pos_less_divide_eq)
    then have "of_int (20 * 2 ^ 48) + 1 / 2 < (20 + 1 / of_int d) * (2 ^ 48 :: rat)"
      by (simp add: algebra_simps)
    also have "\<dots> \<le> x * 2 ^ 48"
      using x20 by (simp add: mult_right_mono)
    also have "\<dots> = x * pow2 (52 - e)"
      by (simp add: e4 pow2_numeral)
    finally have "20 * 2 ^ 48 + 1 \<le> m" by (rule gt)
    then have "(of_int (20 * 2 ^ 48 + 1) :: rat) \<le> of_int m"
      by (simp only: of_int_le_iff)
    then have "(20 * 2 ^ 48 + 1 :: rat) \<le> of_int m" by simp
    then have a: "(20 * 2 ^ 48 + 1) * pow2 (- 48) \<le> of_int m * pow2 (- 48)"
      by (intro mult_right_mono) (simp_all add: less_imp_le)
    have b: "(20 :: rat) < (20 * 2 ^ 48 + 1) * pow2 (- 48)"
      by (simp add: pow2_def)
    from b a have "20 < of_int m * pow2 (- 48)"
      by (rule less_le_trans)
    moreover have "v = of_int m * pow2 (- 48)"
      by (simp add: veq e4)
    ultimately have "20 < v" by simp
    with v show ?thesis by simp
  qed
qed

lemma py_truediv_le20:
  assumes "0 < d" "a \<le> 20 * d" "- (2 ^ 1023 * d) < a"
  shows "\<exists>v. py_truediv a d = Inr v \<and> v \<le> 20"
proof -
  consider "a = 0" | "0 < a" | "a < 0" by linarith
  then show ?thesis
  proof cases
    case 1
    with assms(1) show ?thesis
      by (simp add: py_truediv_def nearest_double_def)
  next
    case 2
    from nearest_double_le [OF 2 assms(1,2)] obtain v where
      "nearest_double a d = Inr v" "v \<le> 20" by auto
    with 2 assms(1) show ?thesis
      by (simp add: py_truediv_def)
  next
    case 3
    then have "0 < - a" "- a < 2 ^ 1023 * d" using assms(3) by simp_all
    from nearest_double_in_range [OF this(1) assms(1) this(2)] obtain v where
      "nearest_double (- a) d = Inr v" "0 \<le> v" by auto
    with 3 assms(1) show ?thesis
      by (simp add: py_truediv_def)
  qed
qed

lemma py_truediv_gt20:
  assumes "0 < d" "20 * d < a" "d < 2 ^ 49" "a < 2 ^ 1023 * d"
  shows "\<exists>v. py_truediv a d = Inr v \<and> 20 < v"
proof -
  have "0 < a" using assms(1,2) by linarith
  with nearest_double_gt20 [OF assms] assms(1) show ?thesis
    by (auto simp: py_truediv_def)
qed

lemma py_truediv_overflow:
  assumes "0 < d" "2 ^ 1024 * d \<le> a"
  shows "py_truediv a d = Inl OverflowError"
proof -
  have "0 < 2 ^ 1024 * d" using assms(1) by simp
  with assms(2) have "0 < a" by linarith
  with nearest_double_overflow [OF assms] assms(1) show ?thesis
    by (simp add: py_truediv_def)
qed

lemma new_algo_short: "length (job_queue s) \<le> 3 \<Longrightarrow> new_algo s = Inr FCFS"
  by (simp add: new_algo_def Let_def)

lemma new_algo_srtf:
  assumes "3 < length (job_queue s)"
    and "total_remaining s \<le> 20 * int (length (job_queue s))"
    and "- (2 ^ 1023 * int (length (job_queue s))) < total_remaining s"
  shows "new_algo s = Inr SRTF"
proof -
  have "0 < length (job_queue s)" using assms(1) by linarith
  then have "0 < int (length (job_queue s))" by simp
  from py_truediv_le20 [OF this assms(2,3)] obtain v where
    "py_truediv (total_remaining s) (int (length (job_queue s))) = Inr v" "v \<le> 20"
    by blast
  moreover have "job_queue s \<noteq> []" using \<open>0 < length (job_queue s)\<close> by simp
  ultimately show ?thesis
    using assms(1) by (simp add: new_algo_def Let_def total_remaining_def)
qed

lemma new_algo_sjf:
  assumes "3 < length (job_queue s)"
    and "20 * int (length (job_queue s)) < total_remaining s"
    and "int (length (job_queue s)) < 2 ^ 49"
    and "total_remaining s < 2 ^ 1023 * int (length (job_queue s))"
  shows "new_algo s = Inr SJF"
proof -
  have "0 < length (job_queue s)" using assms(1) by linarith
  then have "0 < int (length (job_queue s))" by simp
  from py_truediv_gt20 [OF this assms(2,3,4)] obtain v where
    "py_truediv (total_remaining s) (int (length (job_queue s))) = Inr v" "20 < v"
    by blast
  moreover have "job_queue s \<noteq> []" using \<open>0 < length (job_queue s)\<close> by simp
  ultimately show ?thesis
    using assms(1) by (simp add: new_algo_def Let_def total_remaining_def)
qed

lemma new_algo_overflow:
  assumes "3 < length (job_queue s)"
    and "2 ^ 1024 * int (length (job_queue s)) \<le> total_remaining s"
  shows "new_algo s = Inl OverflowError"
proof -
  have "0 < length (job_queue s)" using assms(1) by linarith
  then have "0 < int (length (job_queue s))" by simp
  moreover have "job_queue s \<noteq> []" using \<open>0 < length (job_queue s)\<close> by simp
  ultimately show ?thesis
    using py_truediv_overflow [OF _ assms(2)] assms(1)
    by (simp add: new_algo_def Let_def total_remaining_def)
qed


subsection \<open>What each operation leaves alone\<close>

lemma jobs_send_update [simp]: "jobs (send_update u s) = jobs s"
  and devices_send_update [simp]: "devices (send_update u s) = devices s"
  and queue_send_update [simp]: "job_queue (send_update u s) = job_queue s"
  and printers_send_update [simp]: "printers (send_update u s) = printers s"
  and algorithm_send_update [simp]: "algorithm (send_update u s) = algorithm s"
  by (simp_all add: send_update_def)

lemma printer_send_update_frame [simp]:
  "jobs (printer_send_update p u s) = jobs s"
  "devices (printer_send_update p u s) = devices s"
  "job_queue (printer_send_update p u s) = job_queue s"
  "printers (printer_send_update p u s) = printers s"
  "algorithm (printer_send_update p u s) = algorithm s"
  by (simp_all add: printer_send_update_def)

lemma printer_log_frame [simp]:
  "jobs (printer_log p m s) = jobs s"
  "devices (printer_log p m s) = devices s"
  "job_queue (printer_log p m s) = job_queue s"
  "printers (printer_log p m s) = printers s"
  "algorithm (printer_log p m s) = algorithm s"
  by (simp_all add: printer_log_def)

lemma send_status_update_frame [simp]:
  "jobs (send_status_update p s) = jobs s"
  "devices (send_status_update p s) = devices s"
  "job_queue (send_status_update p s) = job_queue s"
  "printers (send_status_update p s) = printers s"
  "algorithm (send_status_update p s) = algorithm s"
  by (simp_all add: send_status_update_def Let_def)

lemma set_status_frame [simp]:
  "jobs (set_status j st s) = (jobs s)(j := (jobs s j)\<lparr>status := st\<rparr>)"
  "devices (set_status j st s) = devices s"
  "job_queue (set_status j st s) = job_queue s"
  "printers (set_status j st s) = printers s"
  "algorithm (set_status j st s) = algorithm s"
  "update_queue (set_status j st s) = update_queue s"
  by (simp_all add: set_status_def)

lemma set_is_paused_frame [simp]:
  "jobs (set_is_paused p b s) = jobs s"
  "devices (set_is_paused p b s) = (devices s)(p := (devices s p)\<lparr>is_paused := b\<rparr>)"
  "job_queue (set_is_paused p b s) = job_queue s"
  "printers (set_is_paused p b s) = printers s"
  "algorithm (set_is_paused p b s) = algorithm s"
  "update_queue (set_is_paused p b s) = update_queue s"
  by (simp_all add: set_is_paused_def)

lemma toggle_devices: "devices (toggle_pause p s) = (devices s)(p := (devices s p)\<lparr>is_paused := \<not> is_paused (devices s p)\<rparr>)"
  by (auto simp: toggle_pause_def Let_def split: option.splits)

lemma toggle_jobs: "jobs (toggle_pause p s) =
   (case current_job (devices s p) of None \<Rightarrow> jobs s
    | Some j \<Rightarrow> (jobs s)(j := (jobs s j)\<lparr>status := (if is_paused (devices s p) then Printing else Paused)\<rparr>))"
  by (auto simp: toggle_pause_def Let_def split: option.splits)

lemma toggle_rest: "job_queue (toggle_pause p s) = job_queue s" "printers (toggle_pause p s) = printers s"
  "algorithm (toggle_pause p s) = algorithm s"
  by (auto simp: toggle_pause_def Let_def split: option.splits)

lemma manager_log_frame [simp]:
  "jobs (manager_log m s) = jobs s"
  "devices (manager_log m s) = devices s"
  "job_queue (manager_log m s) = job_queue s"
  "printers (manager_log m s) = printers s"
  "algorithm (manager_log m s) = algorithm s"
  by (simp_all add: manager_log_def)

lemma send_full_update_frame [simp]:
  "jobs (send_full_update s) = jobs s"
  "devices (send_full_update s) = devices s"
  "job_queue (send_full_update s) = job_queue s"
  "printers (send_full_update s) = printers s"
  "algorithm (send_full_update s) = algorithm s"
  by (simp_all add: send_full_update_def)

lemma auto_select_frame [simp]:
  "jobs (snd (auto_select_algorithm s)) = jobs s"
  "devices (snd (auto_select_algorithm s)) = devices s"
  "job_queue (snd (auto_select_algorithm s)) = job_queue s"
  "printers (snd (auto_select_algorithm s)) = printers s"
  by (simp_all add: auto_select_algorithm_def split: sum.splits)

lemma check_for_preemption_jobs [simp]: "jobs (check_for_preemption n s) = jobs s"
  by (simp add: check_for_preemption_def preempt_def Let_def split: option.splits)

lemma auto_select_jobsD: "auto_select_algorithm s = (r, s') \<Longrightarrow> jobs s' = jobs s"
  using auto_select_frame(1)[of s] by simp

lemma add_job_to_queue_jobs [simp]: "jobs (snd (add_job_to_queue j b s)) = jobs s"
  unfolding add_job_to_queue_def Let_def
  by (auto split: prod.splits sum.splits dest!: auto_select_jobsD)

lemma set_frames [simp]:
  "jobs (set_current_job p c s) = jobs s"
  "job_queue (set_current_job p c s) = job_queue s"
  "jobs (set_cancel_current_job p b s) = jobs s"
  "job_queue (set_cancel_current_job p b s) = job_queue s"
  "jobs (set_preempt_with_job p c s) = jobs s"
  "job_queue (set_preempt_with_job p c s) = job_queue s"
  by (simp_all add: set_current_job_def set_cancel_current_job_def set_preempt_with_job_def)

lemma count_page_frame [simp]:
  "jobs (count_page j s) = (jobs s)(j := (jobs s j)\<lparr>progress := progress (jobs s j) + 1,
                                        pages_remaining := pages_remaining (jobs s j) - 1\<rparr>)"
  "devices (count_page j s) = devices s"
  "job_queue (count_page j s) = job_queue s"
  by (simp_all add: count_page_def)

lemma add_job_jobsD: "add_job_to_queue j b s = (r, s') \<Longrightarrow> jobs s' = jobs s"
  using add_job_to_queue_jobs[of j b s] by simp

lemma finish_progress:
  assumes "\<not> is_paused (devices s p)" "\<not> shutdown_flag (devices s p)" "current_job (devices s p) = Some j"
  shows "progress (jobs (snd (run_cycle_finish p s)) j) = progress (jobs s j) + 1
       \<and> pages_remaining (jobs (snd (run_cycle_finish p s)) j) = pages_remaining (jobs s j) - 1"
  using assms unfolding run_cycle_finish_def Let_def
  by (auto split: option.splits prod.splits sum.splits dest!: add_job_jobsD)

subsection \<open>The interrupted work unit\<close>

text \<open>
  C7. When the pause flag or the shutdown flag is set at the end of the work-unit delay,
  the rest of \<^verbatim>\<open>run_cycle\<close> returns at once and the whole state is as it was: no page
  is counted and none of the checkpoint code runs. When neither flag is set, the job's
  \<^verbatim>\<open>progress\<close> grows by exactly one and its \<^verbatim>\<open>pages_remaining\<close> shrinks by exactly one,
  whatever the checkpoint does afterwards.
\<close>

theorem run_cycle_finish_interrupted:
  "(is_paused (devices s p) \<or> shutdown_flag (devices s p) \<longrightarrow>
      run_cycle_finish p s = (Inr (), s)) \<and>
   (\<not> is_paused (devices s p) \<and> \<not> shutdown_flag (devices s p) \<and>
    current_job (devices s p) = Some j \<longrightarrow>
      progress (jobs (snd (run_cycle_finish p s)) j) = progress (jobs s j) + 1 \<and>
      pages_remaining (jobs (snd (run_cycle_finish p s)) j) = pages_remaining (jobs s j) - 1)"
proof (intro conjI impI)
  assume "is_paused (devices s p) \<or> shutdown_flag (devices s p)"
  then show "run_cycle_finish p s = (Inr (), s)"
    by (simp add: run_cycle_finish_def)
next
  assume a: "\<not> is_paused (devices s p) \<and> \<not> shutdown_flag (devices s p) \<and>
    current_job (devices s p) = Some j"
  with finish_progress [of s p j]
  show "progress (jobs (snd (run_cycle_finish p s)) j) = progress (jobs s j) + 1"
    by simp
  from a finish_progress [of s p j]
  show "pages_remaining (jobs (snd (run_cycle_finish p s)) j) = pages_remaining (jobs s j) - 1"
    by simp
qed

theorem run_cycle_finish_interrupted_witness:
  "is_paused (devices (demo_system True Paused) 0) \<and>
   run_cycle_finish 0 (demo_system True Paused) = (Inr (), demo_system True Paused) \<and>
   \<not> is_paused (devices (demo_system False Printing) 0) \<and>
   \<not> shutdown_flag (devices (demo_system False Printing) 0) \<and>
   current_job (devices (demo_system False Printing) 0) = Some 0 \<and>
   progress (jobs (snd (run_cycle_finish 0 (demo_system False Printing))) 0) = 3 \<and>
   pages_remaining (jobs (snd (run_cycle_finish 0 (demo_system False Printing))) 0) = 2"
  using run_cycle_finish_interrupted [of "demo_system True Paused" 0 0]
    run_cycle_finish_interrupted [of "demo_system False Printing" 0 0]
  by (simp add: demo_system_def demo_job_def Printer_init_def)

subsection \<open>Pausing twice\<close>



lemma new_algo_cong: "job_queue s = job_queue t \<Longrightarrow> jobs s = jobs t \<Longrightarrow> new_algo s = new_algo t"
  by (simp add: new_algo_def Let_def)

lemma auto_select_result:
  "fst (auto_select_algorithm s) = (case new_algo s of Inl e \<Rightarrow> Inl e | Inr a \<Rightarrow> Inr ())"
  "new_algo s = Inr a \<Longrightarrow> algorithm (snd (auto_select_algorithm s)) = a"
  "new_algo s = Inl e \<Longrightarrow> snd (auto_select_algorithm s) = s"
  by (simp_all add: auto_select_algorithm_def split: sum.splits)

lemma check_for_preemption_algorithm [simp]: "algorithm (check_for_preemption n s) = algorithm s"
  by (simp add: check_for_preemption_def preempt_def Let_def split: option.splits)

lemma auto_select_cases:
  obtains (raised) e where "new_algo s = Inl e" "auto_select_algorithm s = (Inl e, s)"
  | (returned) a s' where "new_algo s = Inr a" "auto_select_algorithm s = (Inr (), s')"
      "algorithm s' = a" "job_queue s' = job_queue s" "jobs s' = jobs s" "devices s' = devices s"
      "printers s' = printers s"
  by (cases "new_algo s") (auto simp: auto_select_algorithm_def)

lemma add_job_to_queue_after:
  assumes "s2 = (if algorithm s = SRTF \<and> \<not> preempted
                 then check_for_preemption job
                        (manager_log (Msg_added (file_name (jobs s job)) (pages (jobs s job)))
                           (s\<lparr>job_queue := job_queue s @ [job]\<rparr>))
                 else if preempted
                 then manager_log (Msg_requeued (file_name (jobs s job)))
                        (s\<lparr>job_queue := job # job_queue s\<rparr>)
                 else manager_log (Msg_added (file_name (jobs s job)) (pages (jobs s job)))
                        (s\<lparr>job_queue := job_queue s @ [job]\<rparr>))"
  shows "add_job_to_queue job preempted s =
           (case auto_select_algorithm s2 of
              (Inl e, s3) \<Rightarrow> (Inl e, s3)
            | (Inr _, s3) \<Rightarrow> (Inr (), send_full_update s3))"
  using assms by (simp add: add_job_to_queue_def Let_def)

subsection \<open>Submitting a job\<close>

text \<open>
  C8. \<^verbatim>\<open>add_job_to_queue\<close> puts a re-queued job at the head of the queue and a new job at
  the tail, and changes no job, so the re-queued job keeps its \<^verbatim>\<open>pages_remaining\<close>. The
  preemption check runs exactly when the policy in force at the call is SRTF and the job is
  new: in that case queue and printers are those that \<^verbatim>\<open>check_for_preemption\<close> leaves,
  in every other case the queue is just the extended one and no printer is touched. The
  policy is re-evaluated in every case, on the queue as it then is: the call raises what
  the re-evaluation raises, and otherwise the policy in force afterwards is the one that
  the re-evaluation selects.
\<close>

theorem add_job_to_queue_submit:
  "(preempted \<longrightarrow>
      job_queue (snd (add_job_to_queue job preempted s)) = job # job_queue s \<and>
      devices (snd (add_job_to_queue job preempted s)) = devices s) \<and>
   (\<not> preempted \<and> algorithm s \<noteq> SRTF \<longrightarrow>
      job_queue (snd (add_job_to_queue job preempted s)) = job_queue s @ [job] \<and>
      devices (snd (add_job_to_queue job preempted s)) = devices s) \<and>
   (\<not> preempted \<and> algorithm s = SRTF \<longrightarrow>
      job_queue (snd (add_job_to_queue job preempted s)) =
        job_queue (check_for_preemption job
          (manager_log (Msg_added (file_name (jobs s job)) (pages (jobs s job)))
             (s\<lparr>job_queue := job_queue s @ [job]\<rparr>))) \<and>
      devices (snd (add_job_to_queue job preempted s)) =
        devices (check_for_preemption job
          (manager_log (Msg_added (file_name (jobs s job)) (pages (jobs s job)))
             (s\<lparr>job_queue := job_queue s @ [job]\<rparr>)))) \<and>
   jobs (snd (add_job_to_queue job preempted s)) = jobs s \<and>
   fst (add_job_to_queue job preempted s) =
     (case new_algo (snd (add_job_to_queue job preempted s)) of
        Inl e \<Rightarrow> Inl e | Inr a \<Rightarrow> Inr ()) \<and>
   (\<forall>a. new_algo (snd (add_job_to_queue job preempted s)) = Inr a \<longrightarrow>
      algorithm (snd (add_job_to_queue job preempted s)) = a)"
proof -
  define s2 where "s2 = (if algorithm s = SRTF \<and> \<not> preempted
                 then check_for_preemption job
                        (manager_log (Msg_added (file_name (jobs s job)) (pages (jobs s job)))
                           (s\<lparr>job_queue := job_queue s @ [job]\<rparr>))
                 else if preempted
                 then manager_log (Msg_requeued (file_name (jobs s job)))
                        (s\<lparr>job_queue := job # job_queue s\<rparr>)
                 else manager_log (Msg_added (file_name (jobs s job)) (pages (jobs s job)))
                        (s\<lparr>job_queue := job_queue s @ [job]\<rparr>))"
  note unf = add_job_to_queue_after [OF s2_def]
  define r where "r = add_job_to_queue job preempted s"
  have facts: "job_queue (snd r) = job_queue s2 \<and> devices (snd r) = devices s2 \<and>
      jobs (snd r) = jobs s2 \<and>
      fst r = (case new_algo (snd r) of Inl e \<Rightarrow> Inl e | Inr a \<Rightarrow> Inr ()) \<and>
      (\<forall>a. new_algo (snd r) = Inr a \<longrightarrow> algorithm (snd r) = a)"
  proof (cases s2 rule: auto_select_cases)
    case (raised e)
    then have "r = (Inl e, s2)"
      by (simp add: unf r_def)
    with raised(1) show ?thesis by simp
  next
    case (returned a s')
    then have "r = (Inr (), send_full_update s')"
      by (simp add: unf r_def)
    moreover have "new_algo (send_full_update s') = new_algo s2"
      by (rule new_algo_cong) (simp_all add: returned)
    ultimately show ?thesis
      using returned by simp
  qed
  have s2: "job_queue s2 = (if algorithm s = SRTF \<and> \<not> preempted
                 then job_queue (check_for_preemption job
                        (manager_log (Msg_added (file_name (jobs s job)) (pages (jobs s job)))
                           (s\<lparr>job_queue := job_queue s @ [job]\<rparr>)))
                 else if preempted then job # job_queue s else job_queue s @ [job])"
    "devices s2 = (if algorithm s = SRTF \<and> \<not> preempted
                 then devices (check_for_preemption job
                        (manager_log (Msg_added (file_name (jobs s job)) (pages (jobs s job)))
                           (s\<lparr>job_queue := job_queue s @ [job]\<rparr>)))
                 else devices s)"
    "jobs s2 = jobs s"
    by (simp_all add: s2_def)
  from facts show ?thesis
    unfolding s2 r_def [symmetric] by auto
qed

theorem add_job_to_queue_submit_witness:
  "job_queue (snd (add_job_to_queue 7 True (demo_system False Printing))) = [7] \<and>
   devices (snd (add_job_to_queue 7 True (demo_system False Printing))) =
     devices (demo_system False Printing) \<and>
   algorithm (demo_system False Printing) \<noteq> SRTF \<and>
   job_queue (snd (add_job_to_queue 7 False (demo_system False Printing))) = [7] \<and>
   new_algo (snd (add_job_to_queue 7 False (demo_system False Printing))) = Inr FCFS \<and>
   fst (add_job_to_queue 7 False (demo_system False Printing)) = Inr () \<and>
   algorithm (snd (add_job_to_queue 7 False (demo_system False Printing))) = FCFS \<and>
   algorithm ((demo_system False Printing)\<lparr>algorithm := SRTF\<rparr>) = SRTF \<and>
   devices (snd (add_job_to_queue 7 False ((demo_system False Printing)\<lparr>algorithm := SRTF\<rparr>))) =
     devices (check_for_preemption 7
       (manager_log (Msg_added ''report.pdf'' 5)
          ((demo_system False Printing)\<lparr>algorithm := SRTF, job_queue := [7]\<rparr>)))"
proof -
  have q: "job_queue (snd (add_job_to_queue 7 False (demo_system False Printing))) = [7]"
    using add_job_to_queue_submit [of False 7 "demo_system False Printing"]
    by (simp add: demo_system_def)
  have n: "new_algo (snd (add_job_to_queue 7 False (demo_system False Printing))) = Inr FCFS"
    by (simp add: new_algo_def q)
  show ?thesis
    using add_job_to_queue_submit [of True 7 "demo_system False Printing"]
      add_job_to_queue_submit [of False 7 "demo_system False Printing"]
      add_job_to_queue_submit [of False 7 "(demo_system False Printing)\<lparr>algorithm := SRTF\<rparr>"]
    by (simp add: n) (simp add: demo_system_def demo_job_def)
qed

lemma scan_printers_step:
  "scan_printers s (p # ps) (b, mx) =
     (if actively_printing s p \<and> mx < remaining_on s p
      then scan_printers s ps (Some p, remaining_on s p)
      else scan_printers s ps (b, mx))"
  by (simp add: actively_printing_def remaining_on_def Let_def split: option.splits)

lemma scan_printers_below:
  "\<forall>p\<in>set ps. actively_printing s p \<longrightarrow> remaining_on s p \<le> mx \<Longrightarrow>
   scan_printers s ps (b, mx) = (b, mx)"
  by (induction ps) (auto simp: scan_printers_step simp del: scan_printers.simps(2))

lemma scan_printers_first_max:
  assumes "actively_printing s t"
    and "mx < remaining_on s t"
    and "\<forall>p\<in>set xs. actively_printing s p \<longrightarrow> remaining_on s p < remaining_on s t"
    and "\<forall>p\<in>set ys. actively_printing s p \<longrightarrow> remaining_on s p \<le> remaining_on s t"
  shows "scan_printers s (xs @ t # ys) (b, mx) = (Some t, remaining_on s t)"
  using assms
proof (induction xs arbitrary: b mx)
  case Nil
  then show ?case
    by (simp add: scan_printers_step scan_printers_below del: scan_printers.simps(2))
next
  case (Cons p xs)
  then show ?case
    by (simp add: scan_printers_step del: scan_printers.simps(2))
qed

lemma first_max_exists:
  "\<exists>p\<in>set ps. actively_printing s p \<and> mx < remaining_on s p \<Longrightarrow>
   \<exists>xs t ys. ps = xs @ t # ys \<and> actively_printing s t \<and> mx < remaining_on s t \<and>
     (\<forall>p\<in>set xs. actively_printing s p \<longrightarrow> remaining_on s p < remaining_on s t) \<and>
     (\<forall>p\<in>set ys. actively_printing s p \<longrightarrow> remaining_on s p \<le> remaining_on s t)"
proof (induction ps arbitrary: mx)
  case Nil
  then show ?case by simp
next
  case (Cons p ps)
  define mx' where "mx' = (if actively_printing s p then max mx (remaining_on s p) else mx)"
  show ?case
  proof (cases "\<exists>q\<in>set ps. actively_printing s q \<and> mx' < remaining_on s q")
    case True
    from Cons.IH [OF True] obtain xs t ys where h: "ps = xs @ t # ys" "actively_printing s t"
      "mx' < remaining_on s t"
      "\<forall>p\<in>set xs. actively_printing s p \<longrightarrow> remaining_on s p < remaining_on s t"
      "\<forall>p\<in>set ys. actively_printing s p \<longrightarrow> remaining_on s p \<le> remaining_on s t"
      by blast
    have "p # ps = (p # xs) @ t # ys" using h(1) by simp
    moreover have "mx < remaining_on s t" using h(3) by (auto simp: mx'_def split: if_splits)
    moreover have "\<forall>q\<in>set (p # xs). actively_printing s q \<longrightarrow> remaining_on s q < remaining_on s t"
      using h(3,4) by (auto simp: mx'_def split: if_splits)
    ultimately show ?thesis using h(2,5) by blast
  next
    case False
    with Cons.prems have p: "actively_printing s p" "mx < remaining_on s p"
      by (auto simp: mx'_def split: if_splits)
    with False have "\<forall>q\<in>set ps. actively_printing s q \<longrightarrow> remaining_on s q \<le> remaining_on s p"
      by (auto simp: mx'_def split: if_splits)
    with p have "p # ps = [] @ p # ps \<and> actively_printing s p \<and> mx < remaining_on s p \<and>
     (\<forall>q\<in>set []. actively_printing s q \<longrightarrow> remaining_on s q < remaining_on s p) \<and>
     (\<forall>q\<in>set ps. actively_printing s q \<longrightarrow> remaining_on s q \<le> remaining_on s p)"
      by simp
    then show ?thesis by blast
  qed
qed

lemma check_for_preemption_none:
  assumes "\<forall>p\<in>set (map snd (printers s)). actively_printing s p \<longrightarrow>
             remaining_on s p \<le> pages_remaining (jobs s new_job)"
  shows "check_for_preemption new_job s = s"
  using scan_printers_below [OF assms, of None]
  by (simp add: check_for_preemption_def)

lemma check_for_preemption_some:
  assumes "map snd (printers s) = xs @ t # ys"
    and "actively_printing s t"
    and "pages_remaining (jobs s new_job) < remaining_on s t"
    and "\<forall>p\<in>set xs. actively_printing s p \<longrightarrow> remaining_on s p < remaining_on s t"
    and "\<forall>p\<in>set ys. actively_printing s p \<longrightarrow> remaining_on s p \<le> remaining_on s t"
  shows "check_for_preemption new_job s =
     (if new_job \<in> set (job_queue s)
      then preempt t new_job
             ((manager_log (Msg_srtf_preemption (job_id (jobs s new_job))
                              (pages_remaining (jobs s new_job))) s)
              \<lparr>job_queue := remove1 new_job (job_queue s)\<rparr>)
      else manager_log (Msg_srtf_info (job_id (jobs s new_job)))
             (manager_log (Msg_srtf_preemption (job_id (jobs s new_job))
                             (pages_remaining (jobs s new_job))) s))"
  using scan_printers_first_max [OF assms(2-5), of None]
  by (simp add: check_for_preemption_def assms(1) Let_def)

lemma preempt_frame [simp]:
  "jobs (preempt p n s) = jobs s"
  "devices (preempt p n s) = (devices s)(p := (devices s p)\<lparr>preempt_with_job := Some n\<rparr>)"
  "job_queue (preempt p n s) = job_queue s"
  "printers (preempt p n s) = printers s"
  "algorithm (preempt p n s) = algorithm s"
  "update_queue (preempt p n s) = update_queue s"
  by (simp_all add: preempt_def)

lemma manager_log_updates [simp]:
  "update_queue (manager_log m s) = update_queue s @ [Log Manager m]"
  by (simp add: manager_log_def send_update_def)

subsection \<open>The preemption check\<close>

text \<open>
  C2. The preemption check for a job that is in the queue. When no actively printing
  registered worker has more pages remaining than the new job, the state is unchanged: no
  worker is preempted and the job stays in the queue. Otherwise there is a target: the
  actively printing worker with the largest \<^verbatim>\<open>pages_remaining\<close>, the first registered one
  among equals; that worker's \<^verbatim>\<open>preempt_with_job\<close> becomes the new job, no other worker
  is touched, and the job is removed from the queue.
\<close>

theorem check_for_preemption_target:
  assumes "new_job \<in> set (job_queue s)"
  shows
  "((\<forall>p\<in>set (map snd (printers s)). actively_printing s p \<longrightarrow>
        remaining_on s p \<le> pages_remaining (jobs s new_job)) \<longrightarrow>
      check_for_preemption new_job s = s) \<and>
   (\<forall>xs t ys.
      map snd (printers s) = xs @ t # ys \<and> actively_printing s t \<and>
      pages_remaining (jobs s new_job) < remaining_on s t \<and>
      (\<forall>p\<in>set xs. actively_printing s p \<longrightarrow> remaining_on s p < remaining_on s t) \<and>
      (\<forall>p\<in>set ys. actively_printing s p \<longrightarrow> remaining_on s p \<le> remaining_on s t) \<longrightarrow>
        devices (check_for_preemption new_job s) =
          (devices s)(t := (devices s t)\<lparr>preempt_with_job := Some new_job\<rparr>) \<and>
        job_queue (check_for_preemption new_job s) = remove1 new_job (job_queue s) \<and>
        jobs (check_for_preemption new_job s) = jobs s) \<and>
   ((\<exists>p\<in>set (map snd (printers s)). actively_printing s p \<and>
        pages_remaining (jobs s new_job) < remaining_on s p) \<longrightarrow>
      (\<exists>xs t ys.
         map snd (printers s) = xs @ t # ys \<and> actively_printing s t \<and>
         pages_remaining (jobs s new_job) < remaining_on s t \<and>
         (\<forall>p\<in>set xs. actively_printing s p \<longrightarrow> remaining_on s p < remaining_on s t) \<and>
         (\<forall>p\<in>set ys. actively_printing s p \<longrightarrow> remaining_on s p \<le> remaining_on s t)))"
proof (intro conjI allI impI)
  assume "\<forall>p\<in>set (map snd (printers s)). actively_printing s p \<longrightarrow>
        remaining_on s p \<le> pages_remaining (jobs s new_job)"
  then show "check_for_preemption new_job s = s"
    by (rule check_for_preemption_none)
next
  fix xs t ys
  assume h: "map snd (printers s) = xs @ t # ys \<and> actively_printing s t \<and>
      pages_remaining (jobs s new_job) < remaining_on s t \<and>
      (\<forall>p\<in>set xs. actively_printing s p \<longrightarrow> remaining_on s p < remaining_on s t) \<and>
      (\<forall>p\<in>set ys. actively_printing s p \<longrightarrow> remaining_on s p \<le> remaining_on s t)"
  then have e: "check_for_preemption new_job s =
      preempt t new_job
             ((manager_log (Msg_srtf_preemption (job_id (jobs s new_job))
                              (pages_remaining (jobs s new_job))) s)
              \<lparr>job_queue := remove1 new_job (job_queue s)\<rparr>)"
    using check_for_preemption_some [of s xs t ys new_job] assms by simp
  show "devices (check_for_preemption new_job s) =
          (devices s)(t := (devices s t)\<lparr>preempt_with_job := Some new_job\<rparr>)"
    by (simp add: e)
  show "job_queue (check_for_preemption new_job s) = remove1 new_job (job_queue s)"
    by (simp add: e)
  show "jobs (check_for_preemption new_job s) = jobs s"
    by (simp add: e)
next
  assume "\<exists>p\<in>set (map snd (printers s)). actively_printing s p \<and>
        pages_remaining (jobs s new_job) < remaining_on s p"
  then show "\<exists>xs t ys.
         map snd (printers s) = xs @ t # ys \<and> actively_printing s t \<and>
         pages_remaining (jobs s new_job) < remaining_on s t \<and>
         (\<forall>p\<in>set xs. actively_printing s p \<longrightarrow> remaining_on s p < remaining_on s t) \<and>
         (\<forall>p\<in>set ys. actively_printing s p \<longrightarrow> remaining_on s p \<le> remaining_on s t)"
    by (rule first_max_exists)
qed

lemma srtf_system_facts:
  "map snd (printers srtf_system) = [] @ 0 # [1, 2]"
  "actively_printing srtf_system 0" "\<not> actively_printing srtf_system 1"
  "\<not> actively_printing srtf_system (Suc 0)"
  "actively_printing srtf_system 2"
  "remaining_on srtf_system 0 = 30" "remaining_on srtf_system 2 = 30"
  "pages_remaining (jobs srtf_system 5) = 5"
  "pages_remaining (jobs srtf_system 30) = 30"
  "job_queue srtf_system = [1, 2, 3, 4, 5]"
  by (simp_all add: srtf_system_def actively_printing_def remaining_on_def numbered_job_def
      PrintJob_init_def Printer_init_def)

theorem check_for_preemption_target_witness:
  "5 \<in> set (job_queue srtf_system) \<and>
   devices (check_for_preemption 5 srtf_system) =
     (devices srtf_system)(0 := (devices srtf_system 0)\<lparr>preempt_with_job := Some 5\<rparr>) \<and>
   job_queue (check_for_preemption 5 srtf_system) = [1, 2, 3, 4] \<and>
   30 \<in> set (job_queue (srtf_system\<lparr>job_queue := [30]\<rparr>)) \<and>
   check_for_preemption 30 (srtf_system\<lparr>job_queue := [30]\<rparr>) = srtf_system\<lparr>job_queue := [30]\<rparr>"
proof -
  have a: "5 \<in> set (job_queue srtf_system)"
    by (simp add: srtf_system_facts)
  have b: "30 \<in> set (job_queue (srtf_system\<lparr>job_queue := [30]\<rparr>))"
    by simp
  have c: "\<forall>p\<in>set (map snd (printers (srtf_system\<lparr>job_queue := [30]\<rparr>))).
     actively_printing (srtf_system\<lparr>job_queue := [30]\<rparr>) p \<longrightarrow>
        remaining_on (srtf_system\<lparr>job_queue := [30]\<rparr>) p
          \<le> pages_remaining (jobs (srtf_system\<lparr>job_queue := [30]\<rparr>) 30)"
    by (simp add: srtf_system_def actively_printing_def remaining_on_def numbered_job_def
      PrintJob_init_def Printer_init_def)
  from check_for_preemption_target [OF a] have
    "map snd (printers srtf_system) = [] @ 0 # [1, 2] \<and> actively_printing srtf_system 0 \<and>
      pages_remaining (jobs srtf_system 5) < remaining_on srtf_system 0 \<and>
      (\<forall>p\<in>set []. actively_printing srtf_system p \<longrightarrow> remaining_on srtf_system p < remaining_on srtf_system 0) \<and>
      (\<forall>p\<in>set [1, 2]. actively_printing srtf_system p \<longrightarrow> remaining_on srtf_system p \<le> remaining_on srtf_system 0) \<longrightarrow>
        devices (check_for_preemption 5 srtf_system) =
          (devices srtf_system)(0 := (devices srtf_system 0)\<lparr>preempt_with_job := Some 5\<rparr>) \<and>
        job_queue (check_for_preemption 5 srtf_system) = remove1 5 (job_queue srtf_system) \<and>
        jobs (check_for_preemption 5 srtf_system) = jobs srtf_system"
    by blast
  then have d: "devices (check_for_preemption 5 srtf_system) =
          (devices srtf_system)(0 := (devices srtf_system 0)\<lparr>preempt_with_job := Some 5\<rparr>) \<and>
        job_queue (check_for_preemption 5 srtf_system) = [1, 2, 3, 4]"
    by (simp add: srtf_system_facts)
  from check_for_preemption_target [OF b] c
  have "check_for_preemption 30 (srtf_system\<lparr>job_queue := [30]\<rparr>) = srtf_system\<lparr>job_queue := [30]\<rparr>"
    by blast
  with a b d show ?thesis by simp
qed

subsection \<open>The preemption check for a job that is no longer queued\<close>

text \<open>
  C9 as stated fails: when the job is not in the queue and no actively printing worker has
  more pages remaining than it, the check returns at once and logs nothing. Here the only
  worker has as many pages remaining as the job.
\<close>

theorem check_for_preemption_absent_counterexample:
  "7 \<notin> set (job_queue (demo_system False Printing)) \<and>
   update_queue (check_for_preemption 7 (demo_system False Printing)) = []"
  by (simp add: check_for_preemption_def demo_system_def demo_job_def Printer_init_def)

text \<open>
  C9, amended. When the job is not in the queue, the check changes neither the queue, nor
  any printer (so no worker receives a preemption payload), nor any job, nor the policy,
  and it raises nothing, being a function into states. If some actively printing worker
  has more pages remaining than the job, exactly two lines are logged, the announcement
  of the preemption and then the note that the job was already taken; if none has,
  nothing is logged.
\<close>

theorem check_for_preemption_absent:
  assumes "new_job \<notin> set (job_queue s)"
  shows
  "devices (check_for_preemption new_job s) = devices s \<and>
   job_queue (check_for_preemption new_job s) = job_queue s \<and>
   jobs (check_for_preemption new_job s) = jobs s \<and>
   printers (check_for_preemption new_job s) = printers s \<and>
   algorithm (check_for_preemption new_job s) = algorithm s \<and>
   update_queue (check_for_preemption new_job s) =
     update_queue s @
     (if \<exists>p\<in>set (map snd (printers s)). actively_printing s p \<and>
            pages_remaining (jobs s new_job) < remaining_on s p
      then [Log Manager (Msg_srtf_preemption (job_id (jobs s new_job))
                           (pages_remaining (jobs s new_job))),
            Log Manager (Msg_srtf_info (job_id (jobs s new_job)))]
      else [])"
proof (cases "\<exists>p\<in>set (map snd (printers s)). actively_printing s p \<and>
            pages_remaining (jobs s new_job) < remaining_on s p")
  case True
  from first_max_exists [OF True] obtain xs t ys where
    "map snd (printers s) = xs @ t # ys" "actively_printing s t"
    "pages_remaining (jobs s new_job) < remaining_on s t"
    "\<forall>p\<in>set xs. actively_printing s p \<longrightarrow> remaining_on s p < remaining_on s t"
    "\<forall>p\<in>set ys. actively_printing s p \<longrightarrow> remaining_on s p \<le> remaining_on s t"
    by blast
  from check_for_preemption_some [OF this, of ] assms
  have "check_for_preemption new_job s =
      manager_log (Msg_srtf_info (job_id (jobs s new_job)))
             (manager_log (Msg_srtf_preemption (job_id (jobs s new_job))
                             (pages_remaining (jobs s new_job))) s)"
    by simp
  with True show ?thesis by simp
next
  case False
  then have "check_for_preemption new_job s = s"
    by (intro check_for_preemption_none) force
  with False show ?thesis by simp
qed

theorem check_for_preemption_absent_witness:
  "5 \<notin> set (job_queue (srtf_system\<lparr>job_queue := [1, 2, 3, 4]\<rparr>)) \<and>
   devices (check_for_preemption 5 (srtf_system\<lparr>job_queue := [1, 2, 3, 4]\<rparr>)) = devices srtf_system \<and>
   job_queue (check_for_preemption 5 (srtf_system\<lparr>job_queue := [1, 2, 3, 4]\<rparr>)) = [1, 2, 3, 4] \<and>
   update_queue (check_for_preemption 5 (srtf_system\<lparr>job_queue := [1, 2, 3, 4]\<rparr>)) =
     [Log Manager (Msg_srtf_preemption ''jjjjj'' 5), Log Manager (Msg_srtf_info ''jjjjj'')]"
proof -
  define S where "S = srtf_system\<lparr>job_queue := [1, 2, 3, 4]\<rparr>"
  have a: "5 \<notin> set (job_queue S)"
    by (simp add: S_def)
  have e: "\<exists>p\<in>set (map snd (printers S)). actively_printing S p \<and>
            pages_remaining (jobs S 5) < remaining_on S p"
    by (simp add: S_def srtf_system_def actively_printing_def remaining_on_def numbered_job_def
      PrintJob_init_def Printer_init_def)
  have f: "job_id (jobs S 5) = ''jjjjj''" "pages_remaining (jobs S 5) = 5" "update_queue S = []"
    "devices S = devices srtf_system" "job_queue S = [1, 2, 3, 4]"
    by (simp_all add: S_def srtf_system_def numbered_job_def PrintJob_init_def eval_nat_numeral)
  from check_for_preemption_absent [OF a] have
    "devices (check_for_preemption 5 S) = devices S"
    "job_queue (check_for_preemption 5 S) = job_queue S"
    "update_queue (check_for_preemption 5 S) =
     update_queue S @
     (if \<exists>p\<in>set (map snd (printers S)). actively_printing S p \<and>
            pages_remaining (jobs S 5) < remaining_on S p
      then [Log Manager (Msg_srtf_preemption (job_id (jobs S 5)) (pages_remaining (jobs S 5))),
            Log Manager (Msg_srtf_info (job_id (jobs S 5)))]
      else [])"
    by blast+
  with e have "devices (check_for_preemption 5 S) = devices srtf_system"
    "job_queue (check_for_preemption 5 S) = [1, 2, 3, 4]"
    "update_queue (check_for_preemption 5 S) =
       [Log Manager (Msg_srtf_preemption ''jjjjj'' 5), Log Manager (Msg_srtf_info ''jjjjj'')]"
    by (simp_all only: f if_True append_Nil)
  with a show ?thesis
    unfolding S_def by blast
qed

lemma set_cancel_flag_frame [simp]:
  "jobs (set_cancel_flag p s) = jobs s"
  "devices (set_cancel_flag p s) = (devices s)(p := (devices s p)\<lparr>cancel_current_job := True\<rparr>)"
  "job_queue (set_cancel_flag p s) = job_queue s"
  "printers (set_cancel_flag p s) = printers s"
  "algorithm (set_cancel_flag p s) = algorithm s"
  "update_queue (set_cancel_flag p s) = update_queue s"
  by (simp_all add: set_cancel_flag_def)

lemma send_full_update_updates:
  "update_queue (send_full_update s) =
     update_queue s @ [Update_queue (map (jobs s) (job_queue s))]"
  by (simp add: send_full_update_def send_update_def get_snapshot_def)

subsection \<open>Cancelling a job\<close>

text \<open>
  What \<^verbatim>\<open>cancel_job\<close> does in each of its three cases. A pending job (the first in the
  queue with the given id) is removed from the queue, the removal is logged and a snapshot
  of the new queue is sent; no job object is written to. Otherwise the first registered
  printer whose current job has the id gets its cancel flag set, and queue and jobs stay.
  Otherwise one line is logged and nothing else changes.
\<close>

lemma cancel_job_pending:
  assumes "find (\<lambda>j. job_id (jobs s j) = jid) (job_queue s) = Some j"
  shows "job_queue (cancel_job jid s) = remove1 j (job_queue s)"
    and "jobs (cancel_job jid s) = jobs s"
    and "devices (cancel_job jid s) = devices s"
    and "algorithm (cancel_job jid s) = algorithm s"
    and "update_queue (cancel_job jid s) =
           update_queue s @ [Log Manager (Msg_removed (file_name (jobs s j))),
                             Update_queue (map (jobs s) (remove1 j (job_queue s)))]"
  using assms by (simp_all add: cancel_job_def send_full_update_updates)

lemma cancel_job_held:
  assumes "find (\<lambda>j. job_id (jobs s j) = jid) (job_queue s) = None"
    and "find (holds_job s jid) (map snd (printers s)) = Some p"
  shows "job_queue (cancel_job jid s) = job_queue s"
    and "jobs (cancel_job jid s) = jobs s"
    and "devices (cancel_job jid s) = (devices s)(p := (devices s p)\<lparr>cancel_current_job := True\<rparr>)"
    and "algorithm (cancel_job jid s) = algorithm s"
proof -
  from assms(2) have "holds_job s jid p"
    by (auto simp: find_Some_iff)
  then obtain j where "current_job (devices s p) = Some j"
    by (auto simp: holds_job_def split: option.splits)
  with assms show "job_queue (cancel_job jid s) = job_queue s"
    and "jobs (cancel_job jid s) = jobs s"
    and "devices (cancel_job jid s) = (devices s)(p := (devices s p)\<lparr>cancel_current_job := True\<rparr>)"
    and "algorithm (cancel_job jid s) = algorithm s"
    by (simp_all add: cancel_job_def)
qed

lemma cancel_job_not_found:
  assumes "find (\<lambda>j. job_id (jobs s j) = jid) (job_queue s) = None"
    and "find (holds_job s jid) (map snd (printers s)) = None"
  shows "cancel_job jid s = s\<lparr>update_queue := update_queue s @ [Log Manager (Msg_not_found jid)]\<rparr>"
  using assms by (simp add: cancel_job_def manager_log_def send_update_def)

text \<open>
  C5. The claim has a cancelled pending job marked \<^verbatim>\<open>Canceled\<close>, as the worker does for a
  job it holds. \<^verbatim>\<open>cancel_job\<close> never writes the status: job 3, pending with the status
  \<^verbatim>\<open>Queued\<close>, is removed from the queue and still has the status \<^verbatim>\<open>Queued\<close>.
\<close>

theorem cancel_job_pending_status:
  "job_id (jobs srtf_system 3) = ''jjj'' \<and>
   job_queue (cancel_job ''jjj'' srtf_system) = [1, 2, 4, 5] \<and>
   status (jobs (cancel_job ''jjj'' srtf_system) 3) = Queued"
proof -
  have f: "find (\<lambda>j. job_id (jobs srtf_system j) = ''jjj'') (job_queue srtf_system) = Some 3"
    by (simp add: srtf_system_def numbered_job_def PrintJob_init_def eval_nat_numeral)
  have "job_queue srtf_system = [1, 2, 3, 4, 5]" "status (jobs srtf_system 3) = Queued"
    "job_id (jobs srtf_system 3) = ''jjj''"
    by (simp_all add: srtf_system_def numbered_job_def PrintJob_init_def eval_nat_numeral)
  with cancel_job_pending(1,2) [OF f] show ?thesis
    by simp
qed

lemma sort_key_head:
  "sort_key f xs = j # rest \<Longrightarrow>
   \<exists>as bs. xs = as @ j # bs \<and> (\<forall>x\<in>set as. f j < f x) \<and> (\<forall>y\<in>set bs. f j \<le> f y)"
  for f :: "'a \<Rightarrow> int"
proof (induction xs arbitrary: j rest)
  case Nil
  then show ?case by simp
next
  case (Cons x xs)
  show ?case
  proof (cases "sort_key f xs")
    case Nil
    then have "xs = []"
      by (metis length_0_conv length_sort)
    with Cons.prems have "x # xs = [] @ j # []" by simp
    then show ?thesis by (metis empty_iff list.set(1))
  next
    case (Cons j' rest')
    from Cons.IH [OF this] obtain as bs where
      h: "xs = as @ j' # bs" "\<forall>x\<in>set as. f j' < f x" "\<forall>y\<in>set bs. f j' \<le> f y"
      by blast
    show ?thesis
    proof (cases "f x \<le> f j'")
      case True
      with Cons Cons.prems have "j = x" by simp
      moreover have "\<forall>y\<in>set xs. f x \<le> f y"
        using h True by fastforce
      ultimately have "x # xs = [] @ j # xs \<and> (\<forall>x\<in>set []. f j < f x) \<and> (\<forall>y\<in>set xs. f j \<le> f y)"
        by simp
      then show ?thesis by blast
    next
      case False
      with Cons Cons.prems have "j = j'" by simp
      with h False have "x # xs = (x # as) @ j # bs \<and> (\<forall>x\<in>set (x # as). f j < f x) \<and> (\<forall>y\<in>set bs. f j \<le> f y)"
        by simp
      then show ?thesis by blast
    qed
  qed
qed

lemma remove1_middle: "j \<notin> set as \<Longrightarrow> remove1 j (as @ j # bs) = as @ bs"
  by (simp add: remove1_append)

subsection \<open>Taking the next job\<close>



lemma new_algo_remaining:
  assumes "job_queue s = job_queue t"
    and "\<And>r. pages_remaining (jobs s r) = pages_remaining (jobs t r)"
  shows "new_algo s = new_algo t"
  by (simp add: new_algo_def Let_def assms)

lemma setter_rest [simp]:
  "algorithm (set_current_job p c s) = algorithm s"
  "algorithm (set_preempt_with_job p c s) = algorithm s"
  "algorithm (set_cancel_current_job p b s) = algorithm s"
  "algorithm (count_page j s) = algorithm s"
  "printers (count_page j s) = printers s"
  "update_queue (count_page j s) = update_queue s"
  by (simp_all add: set_current_job_def set_preempt_with_job_def set_cancel_current_job_def
      count_page_def)

lemma add_job_to_queue_requeue:
  assumes "new_algo (s\<lparr>job_queue := j # job_queue s\<rparr>) = Inr a"
  shows "\<exists>s'. add_job_to_queue j True s = (Inr (), s') \<and> job_queue s' = j # job_queue s \<and>
           jobs s' = jobs s \<and> devices s' = devices s \<and> printers s' = printers s \<and>
           algorithm s' = a"
proof -
  define s2 where "s2 = manager_log (Msg_requeued (file_name (jobs s j))) (s\<lparr>job_queue := j # job_queue s\<rparr>)"
  have n: "new_algo s2 = Inr a"
    using assms new_algo_cong [of s2 "s\<lparr>job_queue := j # job_queue s\<rparr>"] by (simp add: s2_def)
  have u: "add_job_to_queue j True s =
           (case auto_select_algorithm s2 of
              (Inl e, s3) \<Rightarrow> (Inl e, s3)
            | (Inr _, s3) \<Rightarrow> (Inr (), send_full_update s3))"
    by (rule add_job_to_queue_after) (simp add: s2_def)
  show ?thesis
  proof (cases s2 rule: auto_select_cases)
    case (raised e)
    with n show ?thesis by simp
  next
    case (returned a' s')
    with n have "a' = a" by simp
    with returned u show ?thesis by (simp add: s2_def)
  qed
qed

lemma add_job_to_queue_requeue_raises:
  assumes "new_algo (s\<lparr>job_queue := j # job_queue s\<rparr>) = Inl e"
  shows "fst (add_job_to_queue j True s) = Inl e"
proof -
  define s2 where "s2 = manager_log (Msg_requeued (file_name (jobs s j))) (s\<lparr>job_queue := j # job_queue s\<rparr>)"
  have n: "new_algo s2 = Inl e"
    using assms new_algo_cong [of s2 "s\<lparr>job_queue := j # job_queue s\<rparr>"] by (simp add: s2_def)
  have u: "add_job_to_queue j True s =
           (case auto_select_algorithm s2 of
              (Inl e, s3) \<Rightarrow> (Inl e, s3)
            | (Inr _, s3) \<Rightarrow> (Inr (), send_full_update s3))"
    by (rule add_job_to_queue_after) (simp add: s2_def)
  show ?thesis
    using n u by (simp add: auto_select_algorithm_def)
qed

lemma setter_devices [simp]:
  "devices (set_current_job p c s) = (devices s)(p := (devices s p)\<lparr>current_job := c\<rparr>)"
  "devices (set_cancel_current_job p b s) = (devices s)(p := (devices s p)\<lparr>cancel_current_job := b\<rparr>)"
  "devices (set_preempt_with_job p c s) = (devices s)(p := (devices s p)\<lparr>preempt_with_job := c\<rparr>)"
  by (simp_all add: set_current_job_def set_cancel_current_job_def set_preempt_with_job_def)

lemma run_cycle_finish_cancel:
  assumes "\<not> is_paused (devices s p)" "\<not> shutdown_flag (devices s p)"
    "current_job (devices s p) = Some j" "cancel_current_job (devices s p)"
  shows "fst (run_cycle_finish p s) = Inr ()"
    "devices (snd (run_cycle_finish p s)) =
       (devices s)(p := (devices s p)\<lparr>current_job := None, cancel_current_job := False\<rparr>)"
    "jobs (snd (run_cycle_finish p s)) =
       (jobs s)(j := (jobs s j)\<lparr>progress := progress (jobs s j) + 1,
                                 pages_remaining := pages_remaining (jobs s j) - 1,
                                 status := Canceled\<rparr>)"
    "job_queue (snd (run_cycle_finish p s)) = job_queue s"
  using assms by (simp_all add: run_cycle_finish_def Let_def)

lemma run_cycle_finish_plain:
  assumes "\<not> is_paused (devices s p)" "\<not> shutdown_flag (devices s p)"
    "current_job (devices s p) = Some j" "\<not> cancel_current_job (devices s p)"
    "preempt_with_job (devices s p) = None"
  shows "fst (run_cycle_finish p s) = Inr ()"
    "job_queue (snd (run_cycle_finish p s)) = job_queue s"
    "pages (jobs s j) \<le> progress (jobs s j) + 1 \<Longrightarrow>
       devices (snd (run_cycle_finish p s)) = (devices s)(p := (devices s p)\<lparr>current_job := None\<rparr>) \<and>
       jobs (snd (run_cycle_finish p s)) =
         (jobs s)(j := (jobs s j)\<lparr>progress := progress (jobs s j) + 1,
                                   pages_remaining := pages_remaining (jobs s j) - 1,
                                   status := Completed\<rparr>)"
    "\<not> pages (jobs s j) \<le> progress (jobs s j) + 1 \<Longrightarrow>
       devices (snd (run_cycle_finish p s)) = devices s \<and>
       jobs (snd (run_cycle_finish p s)) =
         (jobs s)(j := (jobs s j)\<lparr>progress := progress (jobs s j) + 1,
                                   pages_remaining := pages_remaining (jobs s j) - 1\<rparr>)"
  using assms by (simp_all add: run_cycle_finish_def Let_def)

lemma run_cycle_finish_preempt:
  assumes "\<not> is_paused (devices s p)" "\<not> shutdown_flag (devices s p)"
    "current_job (devices s p) = Some j" "\<not> cancel_current_job (devices s p)"
    "preempt_with_job (devices s p) = Some n"
    "new_algo ((count_page j s)\<lparr>job_queue := j # job_queue s\<rparr>) = Inr a"
  shows "fst (run_cycle_finish p s) = Inr ()"
    "job_queue (snd (run_cycle_finish p s)) = j # job_queue s"
    "devices (snd (run_cycle_finish p s)) =
       (devices s)(p := (devices s p)\<lparr>current_job := Some n, preempt_with_job := None\<rparr>)"
    "jobs (snd (run_cycle_finish p s)) =
       ((jobs s)(j := (jobs s j)\<lparr>progress := progress (jobs s j) + 1,
                                  pages_remaining := pages_remaining (jobs s j) - 1,
                                  status := Queued_Preempted\<rparr>))
       (n := (((jobs s)(j := (jobs s j)\<lparr>progress := progress (jobs s j) + 1,
                                  pages_remaining := pages_remaining (jobs s j) - 1,
                                  status := Queued_Preempted\<rparr>)) n)\<lparr>status := Printing\<rparr>)"
    "algorithm (snd (run_cycle_finish p s)) = a"
proof -
  define s2 where "s2 = set_status j Queued_Preempted
       (printer_log p (Msg_preempted_by (file_name (jobs (count_page j s) n))) (count_page j s))"
  have "new_algo (s2\<lparr>job_queue := j # job_queue s2\<rparr>) = Inr a"
    using assms(6) new_algo_remaining [of "s2\<lparr>job_queue := j # job_queue s2\<rparr>"
        "(count_page j s)\<lparr>job_queue := j # job_queue s\<rparr>"]
    by (simp add: s2_def)
  from add_job_to_queue_requeue [OF this] obtain s3 where
    s3: "add_job_to_queue j True s2 = (Inr (), s3)" "job_queue s3 = j # job_queue s2"
    "jobs s3 = jobs s2" "devices s3 = devices s2" "algorithm s3 = a"
    by blast
  have r0: "run_cycle_finish p s =
     (case add_job_to_queue j True s2 of
        (Inl e, s3) \<Rightarrow> (Inl e, s3)
      | (Inr _, s3) \<Rightarrow>
          let s4 = set_current_job p (preempt_with_job (devices s3 p)) s3
          in (Inr (),
              set_preempt_with_job p None
                (case current_job (devices s4 p) of
                   Some c \<Rightarrow> set_status c Printing s4
                 | None \<Rightarrow> s4)))"
    using assms(1-5)
    by (simp add: run_cycle_finish_def Let_def s2_def del: count_page_frame(1))
  have d3: "devices s3 = devices s"
    by (simp add: s3 s2_def)
  have r: "run_cycle_finish p s =
     (Inr (), set_preempt_with_job p None (set_status n Printing (set_current_job p (Some n) s3)))"
    by (simp add: r0 s3(1) Let_def d3 assms(5))
  show "fst (run_cycle_finish p s) = Inr ()"
    by (simp add: r)
  show "job_queue (snd (run_cycle_finish p s)) = j # job_queue s"
    by (simp add: r s3 s2_def set_preempt_with_job_def)
  show "devices (snd (run_cycle_finish p s)) =
       (devices s)(p := (devices s p)\<lparr>current_job := Some n, preempt_with_job := None\<rparr>)"
    by (simp add: r s3 s2_def)
  show "jobs (snd (run_cycle_finish p s)) =
       ((jobs s)(j := (jobs s j)\<lparr>progress := progress (jobs s j) + 1,
                                  pages_remaining := pages_remaining (jobs s j) - 1,
                                  status := Queued_Preempted\<rparr>))
       (n := (((jobs s)(j := (jobs s j)\<lparr>progress := progress (jobs s j) + 1,
                                  pages_remaining := pages_remaining (jobs s j) - 1,
                                  status := Queued_Preempted\<rparr>)) n)\<lparr>status := Printing\<rparr>)"
    by (simp add: r s3 s2_def)
  show "algorithm (snd (run_cycle_finish p s)) = a"
    by (simp add: r s3 set_preempt_with_job_def set_current_job_def)
qed

subsection \<open>The checkpoint after a counted page\<close>



lemma mean_remaining_le:
  assumes "0 < length (job_queue s)"
  shows "mean_remaining s \<le> 20 \<longleftrightarrow> total_remaining s \<le> 20 * int (length (job_queue s))"
proof -
  have p: "(0::rat) < of_nat (length (job_queue s))" using assms by simp
  have "mean_remaining s \<le> 20 \<longleftrightarrow>
        (of_int (total_remaining s) :: rat) \<le> of_int (20 * int (length (job_queue s)))"
    using p by (simp add: mean_remaining_def pos_divide_le_eq)
  then show ?thesis by (simp only: of_int_le_iff)
qed

lemma mean_remaining_range:
  assumes "0 < length (job_queue s)" "\<bar>mean_remaining s\<bar> < 2 ^ 1023"
  shows "total_remaining s < 2 ^ 1023 * int (length (job_queue s))"
    and "- (2 ^ 1023 * int (length (job_queue s))) < total_remaining s"
proof -
  have p: "(0::rat) < of_nat (length (job_queue s))" using assms by simp
  from assms(2) have "mean_remaining s < 2 ^ 1023" "- (2 ^ 1023) < mean_remaining s"
    by (simp_all add: abs_less_iff)
  then have "(of_int (total_remaining s) :: rat) < of_int (2 ^ 1023 * int (length (job_queue s)))"
    "(of_int (- (2 ^ 1023 * int (length (job_queue s)))) :: rat) < of_int (total_remaining s)"
    using p by (simp_all add: mean_remaining_def pos_divide_less_eq pos_less_divide_eq)
  then show "total_remaining s < 2 ^ 1023 * int (length (job_queue s))"
    and "- (2 ^ 1023 * int (length (job_queue s))) < total_remaining s"
    by (simp_all only: of_int_less_iff)
qed

lemma huge_system_total:
  "length (job_queue huge_system) = 4" "total_remaining huge_system = 4 * 2 ^ 1024"
  by (simp_all add: huge_system_def total_remaining_def PrintJob_init_def)

subsection \<open>The policy\<close>

text \<open>
  C1 as stated fails on four pending jobs of \<open>2 ^ 1024\<close> pages each: the queue is longer
  than 3 and the mean is above 20, but the division \<^verbatim>\<open>sum / queue_length\<close> raises
  \<^verbatim>\<open>OverflowError\<close>, which \<^verbatim>\<open>except ZeroDivisionError\<close> does not catch, so no policy is
  selected and FCFS stays in force.
\<close>

theorem auto_select_algorithm_policy_counterexample:
  "length (job_queue huge_system) = 4 \<and> 20 < mean_remaining huge_system \<and>
   auto_select_algorithm huge_system = (Inl OverflowError, huge_system) \<and>
   algorithm huge_system = FCFS"
proof -
  have "new_algo huge_system = Inl OverflowError"
    by (rule new_algo_overflow) (simp_all add: huge_system_total)
  then have "auto_select_algorithm huge_system = (Inl OverflowError, huge_system)"
    by (simp add: auto_select_algorithm_def)
  moreover have "20 < mean_remaining huge_system"
    by (simp add: mean_remaining_def huge_system_total)
  moreover have "algorithm huge_system = FCFS"
    by (simp add: huge_system_def)
  ultimately show ?thesis
    by (simp add: huge_system_total)
qed

text \<open>
  C1, amended. The policy that the re-evaluation puts in force depends on the length of
  the queue and the mean of \<^verbatim>\<open>pages_remaining\<close> only: FCFS for a queue of at most 3
  jobs; for a longer queue of fewer than \<open>2 ^ 49\<close> jobs whose mean is below \<open>2 ^ 1023\<close>
  in absolute value, SRTF when the mean is at most 20 and SJF when it is greater. In these
  cases the re-evaluation returns normally.
\<close>

theorem auto_select_algorithm_policy:
  "(length (job_queue s) \<le> 3 \<longrightarrow>
      fst (auto_select_algorithm s) = Inr () \<and>
      algorithm (snd (auto_select_algorithm s)) = FCFS) \<and>
   (3 < length (job_queue s) \<and> int (length (job_queue s)) < 2 ^ 49 \<and>
    \<bar>mean_remaining s\<bar> < 2 ^ 1023 \<longrightarrow>
      fst (auto_select_algorithm s) = Inr () \<and>
      algorithm (snd (auto_select_algorithm s)) =
        (if mean_remaining s \<le> 20 then SRTF else SJF))"
proof (intro conjI impI)
  assume "length (job_queue s) \<le> 3"
  then have n: "new_algo s = Inr FCFS" by (rule new_algo_short)
  show "fst (auto_select_algorithm s) = Inr ()"
    by (simp add: auto_select_result(1) n)
  show "algorithm (snd (auto_select_algorithm s)) = FCFS"
    by (rule auto_select_result(2) [OF n])
next
  assume a: "3 < length (job_queue s) \<and> int (length (job_queue s)) < 2 ^ 49 \<and>
    \<bar>mean_remaining s\<bar> < 2 ^ 1023"
  then have pos: "0 < length (job_queue s)" by linarith
  from a have r: "\<bar>mean_remaining s\<bar> < 2 ^ 1023" by simp
  note rng = mean_remaining_range [OF pos r]
  have n: "new_algo s = Inr (if mean_remaining s \<le> 20 then SRTF else SJF)"
  proof (cases "mean_remaining s \<le> 20")
    case True
    then have "total_remaining s \<le> 20 * int (length (job_queue s))"
      by (simp add: mean_remaining_le [OF pos])
    with a rng(2) have "new_algo s = Inr SRTF"
      by (intro new_algo_srtf) simp_all
    with True show ?thesis by simp
  next
    case False
    then have "20 * int (length (job_queue s)) < total_remaining s"
      by (simp add: mean_remaining_le [OF pos])
    with a rng(1) have "new_algo s = Inr SJF"
      by (intro new_algo_sjf) simp_all
    with False show ?thesis by simp
  qed
  show "fst (auto_select_algorithm s) = Inr ()"
    by (simp add: auto_select_result(1) n)
  show "algorithm (snd (auto_select_algorithm s)) =
        (if mean_remaining s \<le> 20 then SRTF else SJF)"
    by (rule auto_select_result(2) [OF n])
qed

theorem auto_select_algorithm_policy_witness:
  "length (job_queue (srtf_system\<lparr>job_queue := [4, 2]\<rparr>)) \<le> 3 \<and>
   algorithm (snd (auto_select_algorithm (srtf_system\<lparr>job_queue := [4, 2]\<rparr>))) = FCFS \<and>
   3 < length (job_queue srtf_system) \<and> mean_remaining srtf_system = 3 \<and>
   fst (auto_select_algorithm srtf_system) = Inr () \<and>
   algorithm (snd (auto_select_algorithm srtf_system)) = SRTF \<and>
   3 < length (job_queue (srtf_system\<lparr>job_queue := [30, 40, 30, 40]\<rparr>)) \<and>
   mean_remaining (srtf_system\<lparr>job_queue := [30, 40, 30, 40]\<rparr>) = 35 \<and>
   algorithm (snd (auto_select_algorithm (srtf_system\<lparr>job_queue := [30, 40, 30, 40]\<rparr>))) = SJF"
proof -
  note defs = srtf_system_def numbered_job_def PrintJob_init_def mean_remaining_def
    total_remaining_def
  have a: "length (job_queue (srtf_system\<lparr>job_queue := [4, 2]\<rparr>)) \<le> 3"
    by simp
  have b: "3 < length (job_queue srtf_system)" "int (length (job_queue srtf_system)) < 2 ^ 49"
    "mean_remaining srtf_system = 3"
    by (simp_all add: defs)
  have c: "3 < length (job_queue (srtf_system\<lparr>job_queue := [30, 40, 30, 40]\<rparr>))"
    "int (length (job_queue (srtf_system\<lparr>job_queue := [30, 40, 30, 40]\<rparr>))) < 2 ^ 49"
    "mean_remaining (srtf_system\<lparr>job_queue := [30, 40, 30, 40]\<rparr>) = 35"
    by (simp_all add: defs)
  have b': "\<bar>mean_remaining srtf_system\<bar> < 2 ^ 1023"
    by (simp add: b(3))
  have c': "\<bar>mean_remaining (srtf_system\<lparr>job_queue := [30, 40, 30, 40]\<rparr>)\<bar> < 2 ^ 1023"
    by (simp add: c(3))
  from auto_select_algorithm_policy [of "srtf_system\<lparr>job_queue := [4, 2]\<rparr>"] a
  have 1: "algorithm (snd (auto_select_algorithm (srtf_system\<lparr>job_queue := [4, 2]\<rparr>))) = FCFS"
    by blast
  from auto_select_algorithm_policy [of srtf_system] b(1,2) b'
  have "fst (auto_select_algorithm srtf_system) = Inr () \<and>
      algorithm (snd (auto_select_algorithm srtf_system)) =
        (if mean_remaining srtf_system \<le> 20 then SRTF else SJF)"
    by blast
  then have 2: "fst (auto_select_algorithm srtf_system) = Inr ()"
    "algorithm (snd (auto_select_algorithm srtf_system)) = SRTF"
    by (simp_all add: b(3))
  from auto_select_algorithm_policy [of "srtf_system\<lparr>job_queue := [30, 40, 30, 40]\<rparr>"] c(1,2) c'
  have "algorithm (snd (auto_select_algorithm (srtf_system\<lparr>job_queue := [30, 40, 30, 40]\<rparr>))) =
        (if mean_remaining (srtf_system\<lparr>job_queue := [30, 40, 30, 40]\<rparr>) \<le> 20 then SRTF else SJF)"
    by blast
  then have 3: "algorithm (snd (auto_select_algorithm (srtf_system\<lparr>job_queue := [30, 40, 30, 40]\<rparr>))) = SJF"
    by (simp add: c(3))
  from a b(1,3) c(1,3) 1 2 3 show ?thesis by blast
qed

subsection \<open>Single steps of a session\<close>

lemma check_for_preemption_printers [simp]: "printers (check_for_preemption n s) = printers s"
  by (simp add: check_for_preemption_def preempt_def Let_def split: option.splits)

lemma add_job_to_queue_returns:
  assumes "s2 = (if algorithm s = SRTF \<and> \<not> preempted
                 then check_for_preemption job
                        (manager_log (Msg_added (file_name (jobs s job)) (pages (jobs s job)))
                           (s\<lparr>job_queue := job_queue s @ [job]\<rparr>))
                 else if preempted
                 then manager_log (Msg_requeued (file_name (jobs s job)))
                        (s\<lparr>job_queue := job # job_queue s\<rparr>)
                 else manager_log (Msg_added (file_name (jobs s job)) (pages (jobs s job)))
                        (s\<lparr>job_queue := job_queue s @ [job]\<rparr>))"
    and "new_algo s2 = Inr a"
  shows "fst (add_job_to_queue job preempted s) = Inr ()"
    and "job_queue (snd (add_job_to_queue job preempted s)) = job_queue s2"
    and "devices (snd (add_job_to_queue job preempted s)) = devices s2"
    and "jobs (snd (add_job_to_queue job preempted s)) = jobs s"
    and "printers (snd (add_job_to_queue job preempted s)) = printers s"
    and "algorithm (snd (add_job_to_queue job preempted s)) = a"
proof -
  note u = add_job_to_queue_after [OF assms(1)]
  from assms(2) obtain s' where s': "auto_select_algorithm s2 = (Inr (), s')"
      "algorithm s' = a" "job_queue s' = job_queue s2" "jobs s' = jobs s2" "devices s' = devices s2"
      "printers s' = printers s2"
    by (cases s2 rule: auto_select_cases) auto
  then have r: "add_job_to_queue job preempted s = (Inr (), send_full_update s')"
    by (simp add: u)
  have j2: "jobs s2 = jobs s" "printers s2 = printers s"
    by (simp_all add: assms(1))
  show "fst (add_job_to_queue job preempted s) = Inr ()"
    and "job_queue (snd (add_job_to_queue job preempted s)) = job_queue s2"
    and "devices (snd (add_job_to_queue job preempted s)) = devices s2"
    and "jobs (snd (add_job_to_queue job preempted s)) = jobs s"
    and "printers (snd (add_job_to_queue job preempted s)) = printers s"
    and "algorithm (snd (add_job_to_queue job preempted s)) = a"
    by (simp_all add: r s' j2)
qed

lemma get_next_job_returns:
  assumes "new_algo s = Inr a"
  shows "algorithm (snd (get_next_job pid s)) = a"
    and "jobs (snd (get_next_job pid s)) = jobs s"
    and "devices (snd (get_next_job pid s)) = devices s"
    and "printers (snd (get_next_job pid s)) = printers s"
    and "job_queue s = first # rest \<Longrightarrow> a = FCFS \<Longrightarrow>
           fst (get_next_job pid s) = Inr (Some first) \<and> job_queue (snd (get_next_job pid s)) = rest"
    and "job_queue s \<noteq> [] \<Longrightarrow> a \<noteq> FCFS \<Longrightarrow>
         sort_key (\<lambda>j. pages_remaining (jobs s j)) (job_queue s) = j # others \<Longrightarrow>
           fst (get_next_job pid s) = Inr (Some j) \<and>
           job_queue (snd (get_next_job pid s)) = remove1 j (job_queue s)"
proof -
  from assms obtain s1 where s1: "auto_select_algorithm s = (Inr (), s1)" "algorithm s1 = a"
    "job_queue s1 = job_queue s" "jobs s1 = jobs s" "devices s1 = devices s" "printers s1 = printers s"
    by (cases s rule: auto_select_cases) auto
  show "algorithm (snd (get_next_job pid s)) = a"
    using s1 by (auto simp: get_next_job_def manager_log_def send_update_def split: list.splits algorithm.splits)
  show "jobs (snd (get_next_job pid s)) = jobs s"
    using s1 by (auto simp: get_next_job_def split: list.splits algorithm.splits)
  show "devices (snd (get_next_job pid s)) = devices s"
    using s1 by (auto simp: get_next_job_def split: list.splits algorithm.splits)
  show "printers (snd (get_next_job pid s)) = printers s"
    using s1 by (auto simp: get_next_job_def split: list.splits algorithm.splits)
  show "fst (get_next_job pid s) = Inr (Some first) \<and> job_queue (snd (get_next_job pid s)) = rest"
    if "job_queue s = first # rest" "a = FCFS"
    using that s1 by (simp add: get_next_job_def)
  show "fst (get_next_job pid s) = Inr (Some j) \<and>
           job_queue (snd (get_next_job pid s)) = remove1 j (job_queue s)"
    if "job_queue s \<noteq> []" "a \<noteq> FCFS"
      "sort_key (\<lambda>j. pages_remaining (jobs s j)) (job_queue s) = j # others"
  proof -
    from that(1) obtain first rest where "job_queue s = first # rest"
      by (cases "job_queue s") auto
    with that s1 show ?thesis
      by (cases a) (simp_all add: get_next_job_def)
  qed
qed

lemma setter_frames [simp]:
  "printers (set_current_job p c s) = printers s"
  "printers (set_cancel_current_job p b s) = printers s"
  "printers (set_preempt_with_job p c s) = printers s"
  by (simp_all add: set_current_job_def set_cancel_current_job_def set_preempt_with_job_def)

lemma run_cycle_start_idle:
  assumes "\<not> is_paused (devices s p)" "\<not> shutdown_flag (devices s p)"
    and "current_job (devices s p) = None"
    and "get_next_job (printer_id (devices s p)) (send_status_update p s) = (Inr (Some j), s2)"
  shows "fst (run_cycle_start p s) = Inr True"
    and "job_queue (snd (run_cycle_start p s)) = job_queue s2"
    and "algorithm (snd (run_cycle_start p s)) = algorithm s2"
    and "printers (snd (run_cycle_start p s)) = printers s2"
    and "jobs (snd (run_cycle_start p s)) = (jobs s2)(j := (jobs s2 j)\<lparr>status := Printing\<rparr>)"
    and "devices (snd (run_cycle_start p s)) = (devices s2)(p := (devices s2 p)\<lparr>current_job := Some j\<rparr>)"
  using assms by (simp_all add: run_cycle_start_def Let_def)

lemma run_cycle_start_busy:
  assumes "\<not> is_paused (devices s p)" "current_job (devices s p) = Some j"
  shows "run_cycle_start p s = (Inr True, send_status_update p s)"
  using assms by (simp add: run_cycle_start_def)

lemma run_cycle_alone:
  assumes "fst (run_cycle_start p s) = Inr True"
  shows "run_cycle (\<lambda>s. s) p s = run_cycle_finish p (snd (run_cycle_start p s))"
  using assms by (cases "run_cycle_start p s") (auto simp: run_cycle_def split: sum.splits)

lemma run_cycle_finish_cancel_rest:
  assumes "\<not> is_paused (devices s p)" "\<not> shutdown_flag (devices s p)"
    "current_job (devices s p) = Some j" "cancel_current_job (devices s p)"
  shows "algorithm (snd (run_cycle_finish p s)) = algorithm s"
    and "printers (snd (run_cycle_finish p s)) = printers s"
  using assms by (simp_all add: run_cycle_finish_def Let_def)

lemma run_cycle_finish_plain_rest:
  assumes "\<not> is_paused (devices s p)" "\<not> shutdown_flag (devices s p)"
    "current_job (devices s p) = Some j" "\<not> cancel_current_job (devices s p)"
    "preempt_with_job (devices s p) = None"
  shows "algorithm (snd (run_cycle_finish p s)) = algorithm s"
    and "printers (snd (run_cycle_finish p s)) = printers s"
  using assms by (simp_all add: run_cycle_finish_def Let_def)

lemma run_cycle_start_takes:
  assumes "\<not> is_paused (devices s p)" "\<not> shutdown_flag (devices s p)"
    and "current_job (devices s p) = None"
    and "new_algo s = Inr a"
    and "a = FCFS \<and> job_queue s = j # others \<and> rest = others \<or>
         a \<noteq> FCFS \<and> job_queue s \<noteq> [] \<and>
         sort_key (\<lambda>j. pages_remaining (jobs s j)) (job_queue s) = j # others \<and>
         rest = remove1 j (job_queue s)"
  shows "fst (run_cycle_start p s) = Inr True"
    and "job_queue (snd (run_cycle_start p s)) = rest"
    and "algorithm (snd (run_cycle_start p s)) = a"
    and "printers (snd (run_cycle_start p s)) = printers s"
    and "jobs (snd (run_cycle_start p s)) = (jobs s)(j := (jobs s j)\<lparr>status := Printing\<rparr>)"
    and "devices (snd (run_cycle_start p s)) = (devices s)(p := (devices s p)\<lparr>current_job := Some j\<rparr>)"
proof -
  define s1 where "s1 = send_status_update p s"
  define G where "G = get_next_job (printer_id (devices s p)) s1"
  have f: "job_queue s1 = job_queue s" "jobs s1 = jobs s" "devices s1 = devices s"
    "printers s1 = printers s"
    by (simp_all add: s1_def)
  have n: "new_algo s1 = Inr a"
    using assms(4) new_algo_cong [of s1 s] by (simp add: f)
  note g = get_next_job_returns [OF n, where pid = "printer_id (devices s p)"]
  have r: "fst G = Inr (Some j) \<and> job_queue (snd G) = rest"
    using assms(5) g(5) [where first = j and rest = others] g(6) [where j = j and others = others]
    by (auto simp: G_def f)
  then have G: "get_next_job (printer_id (devices s p)) (send_status_update p s) = (Inr (Some j), snd G)"
    by (cases G) (simp add: G_def s1_def)
  note st = run_cycle_start_idle [OF assms(1-3) G]
  have h: "algorithm (snd G) = a" "jobs (snd G) = jobs s" "devices (snd G) = devices s"
    "printers (snd G) = printers s"
    using g(1-4) by (simp_all add: G_def f)
  show "fst (run_cycle_start p s) = Inr True"
    and "job_queue (snd (run_cycle_start p s)) = rest"
    and "algorithm (snd (run_cycle_start p s)) = a"
    and "printers (snd (run_cycle_start p s)) = printers s"
    and "jobs (snd (run_cycle_start p s)) = (jobs s)(j := (jobs s j)\<lparr>status := Printing\<rparr>)"
    and "devices (snd (run_cycle_start p s)) = (devices s)(p := (devices s p)\<lparr>current_job := Some j\<rparr>)"
    using st r by (simp_all add: h)
qed

end
